theory Spec2Isabelle
  imports Complex_Main "HOL-Library.Sublist"
begin

section \<open>Package time: instants, locations and calendar days\<close>

text \<open>
  A Go \<^verbatim>\<open>time.Time\<close> is an instant together with a location. The instant is kept as
  Unix time in nanoseconds; the location is a fixed offset, in seconds east of UTC
  (Japan Standard Time is \<open>32400\<close>). \<^verbatim>\<open>time.Parse\<close> of a layout without a zone gives
  UTC; \<^verbatim>\<open>time.Now()\<close> gives the local zone of the process.
\<close>

record Time =
  ns :: int
  zone :: int

definition second :: int where
  "second = 1000000000"

definition day_ns :: int where
  "day_ns = 86400 * second"

text \<open>\<^verbatim>\<open>t.Before(u)\<close>, \<^verbatim>\<open>t.After(u)\<close> and \<^verbatim>\<open>t.Equal(u)\<close> compare instants only.\<close>

definition Before :: "Time \<Rightarrow> Time \<Rightarrow> bool" where
  "Before t u = (ns t < ns u)"

definition After :: "Time \<Rightarrow> Time \<Rightarrow> bool" where
  "After t u = (ns t > ns u)"

definition Equal :: "Time \<Rightarrow> Time \<Rightarrow> bool" where
  "Equal t u = (ns t = ns u)"

text \<open>
  \<^verbatim>\<open>t.AddDate(0, 0, n)\<close>: the same wall clock \<open>n\<close> days later in the location of \<open>t\<close>,
  which in a fixed-offset location is \<open>n\<close> times 24 hours later.
\<close>

definition AddDate :: "Time \<Rightarrow> int \<Rightarrow> Time" where
  "AddDate t n = t\<lparr>ns := ns t + n * day_ns\<rparr>"

text \<open>
  \<^verbatim>\<open>t.Truncate(24 * time.Hour)\<close> rounds the instant down to a multiple of 24 hours
  counted from the zero time, 0001-01-01 00:00 UTC. The zero time is a whole number of
  days (719162) before the Unix epoch, so the multiples are the UTC midnights. The
  location does not take part.
\<close>

definition Truncate :: "Time \<Rightarrow> Time" where
  "Truncate t = t\<lparr>ns := ns t - ns t mod day_ns\<rparr>"

text \<open>
  \<^verbatim>\<open>t.Format("2006-01-02")\<close> prints the calendar date of \<open>t\<close> in the location of \<open>t\<close>.
  A date string of this layout is represented by the number of its day, counted from
  1970-01-01; for the years 0000 to 9999, the only ones the layouts of this program
  admit, the order of the strings that Go's \<^verbatim>\<open><=\<close> compares is the order of the days.
\<close>

definition Format :: "Time \<Rightarrow> int" where
  "Format t = (ns t + zone t * second) div day_ns"

text \<open>\<^verbatim>\<open>time.Parse("2006-01-02", s)\<close> of the string of day \<open>d\<close>: midnight UTC of that day.\<close>

definition midnightUTC :: "int \<Rightarrow> Time" where
  "midnightUTC d = \<lparr>ns = d * day_ns, zone = 0\<rparr>"

definition zero_ns :: int where
  "zero_ns = - 719162 * day_ns"

definition IsZero :: "Time \<Rightarrow> bool" where
  "IsZero t = (ns t = zero_ns)"

text \<open>A wall clock reading: day \<open>d\<close>, \<open>h:m\<close> o'clock, in the zone \<open>z\<close> seconds east of UTC.\<close>

definition wallClock :: "int \<Rightarrow> int \<Rightarrow> int \<Rightarrow> int \<Rightarrow> Time" where
  "wallClock d h m z = \<lparr>ns = d * day_ns + (h * 3600 + m * 60 - z) * second, zone = z\<rparr>"

section \<open>Strings: bytes and UTF-8 (packages unicode/utf8, unicode, strings, regexp)\<close>

text \<open>
  A Go string is a sequence of bytes, and \<^verbatim>\<open>len\<close> and slicing count bytes; \<open>string\<close>
  is a list of 8-bit characters. The functions that work on Unicode code points decode
  UTF-8 on the way, as \<^verbatim>\<open>utf8.DecodeRuneInString\<close> does: a byte that starts no valid
  encoding is the rune \<^verbatim>\<open>RuneError\<close> of width 1.
\<close>

definition byte :: "char \<Rightarrow> nat" where
  "byte c = of_char c"

definition RuneError :: nat where
  "RuneError = 0xFFFD"

text \<open>A continuation byte, \<^verbatim>\<open>locb <= b <= hicb\<close>.\<close>

definition cont :: "char \<Rightarrow> bool" where
  "cont c = (0x80 \<le> byte c \<and> byte c \<le> 0xBF)"

text \<open>
  The tables \<^verbatim>\<open>first\<close> and \<^verbatim>\<open>acceptRanges\<close> of package utf8, for a lead byte
  between \<open>0xC2\<close> and \<open>0xF4\<close>: the length of the sequence and the range its second byte
  must lie in.
\<close>

definition seqSize :: "nat \<Rightarrow> nat" where
  "seqSize s0 = (if s0 < 0xE0 then 2 else if s0 < 0xF0 then 3 else 4)"

definition acceptLo :: "nat \<Rightarrow> nat" where
  "acceptLo s0 = (if s0 = 0xE0 then 0xA0 else if s0 = 0xF0 then 0x90 else 0x80)"

definition acceptHi :: "nat \<Rightarrow> nat" where
  "acceptHi s0 = (if s0 = 0xED then 0x9F else if s0 = 0xF4 then 0x8F else 0xBF)"

definition DecodeRuneInString :: "string \<Rightarrow> nat \<times> nat" where
  "DecodeRuneInString s =
     (let n = length s in
      if n < 1 then (RuneError, 0)
      else
        let s0 = byte (s ! 0) in
        if s0 < 0x80 then (s0, 1)
        else if s0 < 0xC2 \<or> 0xF4 < s0 then (RuneError, 1)
        else
          let sz = seqSize s0 in
          if n < sz then (RuneError, 1)
          else
            let s1 = byte (s ! 1) in
            if s1 < acceptLo s0 \<or> acceptHi s0 < s1 then (RuneError, 1)
            else if sz \<le> 2 then ((s0 mod 32) * 64 + s1 mod 64, 2)
            else
              let s2 = byte (s ! 2) in
              if s2 < 0x80 \<or> 0xBF < s2 then (RuneError, 1)
              else if sz \<le> 3 then ((s0 mod 16) * 4096 + (s1 mod 64) * 64 + s2 mod 64, 3)
              else
                let s3 = byte (s ! 3) in
                if s3 < 0x80 \<or> 0xBF < s3 then (RuneError, 1)
                else ((s0 mod 8) * 262144 + (s1 mod 64) * 4096 + (s2 mod 64) * 64
                        + s3 mod 64, 4))"

lemma seqSize_bounds: "2 \<le> seqSize b" "seqSize b \<le> 4"
  by (simp_all add: seqSize_def)

lemma accept_bounds: "0x80 \<le> acceptLo b" "acceptHi b \<le> 0xBF"
  by (simp_all add: acceptLo_def acceptHi_def)

text \<open>
  The ways \<^verbatim>\<open>DecodeRuneInString\<close> returns: the empty string, a byte of ASCII, a byte
  that starts no valid encoding, and the encodings of two, three and four bytes.
\<close>

lemma decode_cases:
  obtains
    (empty) "s = []" "DecodeRuneInString s = (RuneError, 0)"
  | (ascii) "s \<noteq> []" "byte (s ! 0) < 0x80" "DecodeRuneInString s = (byte (s ! 0), 1)"
  | (invalid) "s \<noteq> []" "0x80 \<le> byte (s ! 0)" "DecodeRuneInString s = (RuneError, 1)"
  | (two) "2 \<le> length s" "0xC2 \<le> byte (s ! 0)" "byte (s ! 0) < 0xE0" "cont (s ! 1)"
      "DecodeRuneInString s = ((byte (s ! 0) mod 32) * 64 + byte (s ! 1) mod 64, 2)"
  | (three) "3 \<le> length s" "0xE0 \<le> byte (s ! 0)" "byte (s ! 0) < 0xF0"
      "acceptLo (byte (s ! 0)) \<le> byte (s ! 1)" "cont (s ! 1)" "cont (s ! 2)"
      "DecodeRuneInString s
         = ((byte (s ! 0) mod 16) * 4096 + (byte (s ! 1) mod 64) * 64 + byte (s ! 2) mod 64, 3)"
  | (four) "4 \<le> length s" "0xF0 \<le> byte (s ! 0)" "byte (s ! 0) \<le> 0xF4"
      "acceptLo (byte (s ! 0)) \<le> byte (s ! 1)" "cont (s ! 1)" "cont (s ! 2)" "cont (s ! 3)"
      "DecodeRuneInString s
         = ((byte (s ! 0) mod 8) * 262144 + (byte (s ! 1) mod 64) * 4096
              + (byte (s ! 2) mod 64) * 64 + byte (s ! 3) mod 64, 4)"
proof -
  define s0 where "s0 = byte (s ! 0)"
  define sz where "sz = seqSize s0"
  have lo: "0x80 \<le> acceptLo s0" and hi: "acceptHi s0 \<le> 0xBF" by (rule accept_bounds)+
  note D = DecodeRuneInString_def Let_def s0_def[symmetric] sz_def[symmetric]
  let ?bad0 = "s0 < 0xC2 \<or> 0xF4 < s0 \<or> length s < sz"
  let ?bad1 = "byte (s ! 1) < acceptLo s0 \<or> acceptHi s0 < byte (s ! 1)"
  let ?bad2 = "byte (s ! 2) < 0x80 \<or> 0xBF < byte (s ! 2)"
  let ?bad3 = "byte (s ! 3) < 0x80 \<or> 0xBF < byte (s ! 3)"
  consider (e) "s = []"
    | (a) "s \<noteq> []" "s0 < 0x80"
    | (b0) "s \<noteq> []" "\<not> s0 < 0x80" "?bad0"
    | (b1) "s \<noteq> []" "\<not> s0 < 0x80" "\<not> ?bad0" "?bad1"
    | (c2) "s \<noteq> []" "\<not> s0 < 0x80" "\<not> ?bad0" "\<not> ?bad1" "sz \<le> 2"
    | (b2) "s \<noteq> []" "\<not> s0 < 0x80" "\<not> ?bad0" "\<not> ?bad1" "\<not> sz \<le> 2" "?bad2"
    | (c3) "s \<noteq> []" "\<not> s0 < 0x80" "\<not> ?bad0" "\<not> ?bad1" "\<not> sz \<le> 2" "\<not> ?bad2" "sz \<le> 3"
    | (b3) "s \<noteq> []" "\<not> s0 < 0x80" "\<not> ?bad0" "\<not> ?bad1" "\<not> sz \<le> 2" "\<not> ?bad2"
        "\<not> sz \<le> 3" "?bad3"
    | (c4) "s \<noteq> []" "\<not> s0 < 0x80" "\<not> ?bad0" "\<not> ?bad1" "\<not> sz \<le> 2" "\<not> ?bad2"
        "\<not> sz \<le> 3" "\<not> ?bad3"
    by blast
  then show thesis
  proof cases
    case e
    then show thesis by (intro empty) (simp_all add: D)
  next
    case a
    then show thesis by (intro ascii) (simp_all add: D)
  next
    case b0
    then have "DecodeRuneInString s = (RuneError, 1)" by (auto simp: D)
    with b0 show thesis by (intro invalid) (simp_all add: s0_def)
  next
    case b1
    then have "DecodeRuneInString s = (RuneError, 1)" by (auto simp: D)
    with b1 show thesis by (intro invalid) (simp_all add: s0_def)
  next
    case c2
    then have d: "DecodeRuneInString s = ((s0 mod 32) * 64 + byte (s ! 1) mod 64, 2)"
      by (auto simp: D)
    have "sz = 2" using c2 by (simp add: sz_def seqSize_def split: if_splits)
    then have "s0 < 0xE0" "2 \<le> length s" using c2 by (auto simp: sz_def seqSize_def split: if_splits)
    moreover have "cont (s ! 1)" using c2 lo hi by (simp add: cont_def)
    ultimately show thesis using c2 d by (intro two) (simp_all add: s0_def)
  next
    case b2
    then have "DecodeRuneInString s = (RuneError, 1)" by (auto simp: D)
    with b2 show thesis by (intro invalid) (simp_all add: s0_def)
  next
    case c3
    then have d: "DecodeRuneInString s
        = ((s0 mod 16) * 4096 + (byte (s ! 1) mod 64) * 64 + byte (s ! 2) mod 64, 3)"
      by (auto simp: D)
    have "sz = 3" using c3 by (simp add: sz_def seqSize_def split: if_splits)
    then have "0xE0 \<le> s0" "s0 < 0xF0" "3 \<le> length s"
      using c3 by (auto simp: sz_def seqSize_def split: if_splits)
    moreover have "cont (s ! 1)" using c3 lo hi by (simp add: cont_def)
    moreover have "cont (s ! 2)" using c3 by (simp add: cont_def)
    ultimately show thesis using c3 d by (intro three) (simp_all add: s0_def)
  next
    case b3
    then have "DecodeRuneInString s = (RuneError, 1)" by (auto simp: D)
    with b3 show thesis by (intro invalid) (simp_all add: s0_def)
  next
    case c4
    then have d: "DecodeRuneInString s
        = ((s0 mod 8) * 262144 + (byte (s ! 1) mod 64) * 4096 + (byte (s ! 2) mod 64) * 64
            + byte (s ! 3) mod 64, 4)"
      by (auto simp: D)
    have "sz = 4" using c4 seqSize_bounds[of s0] by (simp add: sz_def)
    then have "0xF0 \<le> s0" "s0 \<le> 0xF4" "4 \<le> length s"
      using c4 by (auto simp: sz_def seqSize_def split: if_splits)
    moreover have "cont (s ! 1)" using c4 lo hi by (simp add: cont_def)
    moreover have "cont (s ! 2)" using c4 by (simp add: cont_def)
    moreover have "cont (s ! 3)" using c4 by (simp add: cont_def)
    ultimately show thesis using c4 d by (intro four) (simp_all add: s0_def)
  qed
qed

text \<open>
  The width of a decoded rune is 0 only for the empty string, otherwise 1 to 4 and within
  the string, and every byte after the first of a longer rune is a continuation byte.
\<close>

lemma decode_size_pos: "s \<noteq> [] \<Longrightarrow> 1 \<le> snd (DecodeRuneInString s)"
  by (cases s rule: decode_cases) simp_all

lemma decode_size_le: "snd (DecodeRuneInString s) \<le> length s"
  by (cases s rule: decode_cases) (simp_all add: Suc_le_eq)

lemma decode_cont:
  assumes "0 < i" "i < snd (DecodeRuneInString s)"
  shows "cont (s ! i)"
proof -
  have i: "i = 1 \<or> i = 2 \<or> i = 3 \<or> 4 \<le> i" using assms(1) by arith
  show ?thesis
    using assms(2) i by (cases s rule: decode_cases) auto
qed

text \<open>
  \<^verbatim>\<open>for i, r := range s\<close>: the byte offsets and runes of \<open>s\<close>, starting the count of
  offsets at \<open>i\<close>.
\<close>

function rangeLoop :: "nat \<Rightarrow> string \<Rightarrow> (nat \<times> nat) list" where
  "rangeLoop i s =
     (if s = [] then []
      else (i, fst (DecodeRuneInString s))
             # rangeLoop (i + snd (DecodeRuneInString s)) (drop (snd (DecodeRuneInString s)) s))"
  by pat_completeness auto
termination
proof (relation "measure (\<lambda>(i, s). length s)")
  show "wf (measure (\<lambda>(i, s). length s))" by simp
next
  fix i :: nat and s :: string
  assume "s \<noteq> []"
  then show "((i + snd (DecodeRuneInString s), drop (snd (DecodeRuneInString s)) s), (i, s))
               \<in> measure (\<lambda>(i, s). length s)"
    using decode_size_pos[of s] by (cases s) auto
qed

declare rangeLoop.simps [simp del]

text \<open>\<^verbatim>\<open>unicode.IsSpace\<close>: the Latin-1 cases and the rest of the property White-Space.\<close>

definition IsSpace :: "nat \<Rightarrow> bool" where
  "IsSpace r =
     (if r \<le> 0xFF then r \<in> {0x09, 0x0A, 0x0B, 0x0C, 0x0D, 0x20, 0x85, 0xA0}
      else r = 0x1680 \<or> (0x2000 \<le> r \<and> r \<le> 0x200A) \<or> r = 0x2028 \<or> r = 0x2029
           \<or> r = 0x202F \<or> r = 0x205F \<or> r = 0x3000)"

text \<open>\<^verbatim>\<open>strings.TrimLeftFunc(s, f)\<close>: from the first rune that does not satisfy \<open>f\<close>.\<close>

definition TrimLeftFunc :: "string \<Rightarrow> (nat \<Rightarrow> bool) \<Rightarrow> string" where
  "TrimLeftFunc s f =
     (case find (\<lambda>(i, r). \<not> f r) (rangeLoop 0 s) of
        None \<Rightarrow> []
      | Some (i, r) \<Rightarrow> drop i s)"

definition RuneStart :: "char \<Rightarrow> bool" where
  "RuneStart c = (\<not> cont c)"

text \<open>
  The backward scan of \<^verbatim>\<open>utf8.DecodeLastRuneInString\<close>:
  \<^verbatim>\<open>for start--; start >= lim; start-- { if RuneStart(s[start]) { break } }\<close>
\<close>

function scanStart :: "string \<Rightarrow> int \<Rightarrow> int \<Rightarrow> int" where
  "scanStart s low start =
     (if start \<ge> low
      then (if RuneStart (s ! nat start) then start else scanStart s low (start - 1))
      else start)"
  by pat_completeness auto
termination
  by (relation "measure (\<lambda>(s, low, start). nat (start - low + 1))") auto

declare scanStart.simps [simp del]

definition DecodeLastRuneInString :: "string \<Rightarrow> nat \<times> nat" where
  "DecodeLastRuneInString s =
     (let n = int (length s) in
      if n = 0 then (RuneError, 0)
      else
        let r = byte (s ! nat (n - 1)) in
        if r < 0x80 then (r, 1)
        else
          let low = max 0 (n - 4);
              start = max 0 (scanStart s low (n - 2));
              (r, size) = DecodeRuneInString (drop (nat start) s)
          in if start + int size \<noteq> n then (RuneError, 1) else (r, size))"

lemma scanStart_less: "start < n \<Longrightarrow> scanStart s low start < n"
  by (induction s low start rule: scanStart.induct) (subst scanStart.simps, auto)

lemma decodeLast_size_pos: "s \<noteq> [] \<Longrightarrow> 1 \<le> snd (DecodeLastRuneInString s)"
proof -
  assume ne: "s \<noteq> []"
  define n where "n = int (length s)"
  define start where "start = max 0 (scanStart s (max 0 (n - 4)) (n - 2))"
  have "scanStart s (max 0 (n - 4)) (n - 2) < n" by (rule scanStart_less) simp
  moreover have "0 < n" using ne by (simp add: n_def)
  ultimately have "start < n" "0 < n" "0 \<le> start" by (simp_all add: start_def)
  then show ?thesis
    by (auto simp: DecodeLastRuneInString_def Let_def n_def[symmetric] start_def[symmetric]
        split: prod.splits)
qed

text \<open>
  \<^verbatim>\<open>lastIndexFunc(s, f, false)\<close>: the offset of the last rune that does not satisfy
  \<open>f\<close>, or \<open>-1\<close>. The loop shortens the prefix \<^verbatim>\<open>s[0:i]\<close> it looks at.
\<close>

function lastIndexNot :: "(nat \<Rightarrow> bool) \<Rightarrow> string \<Rightarrow> int" where
  "lastIndexNot f s =
     (if s = [] then - 1
      else
        let i = length s - snd (DecodeLastRuneInString s) in
        if \<not> f (fst (DecodeLastRuneInString s)) then int i
        else lastIndexNot f (take i s))"
  by pat_completeness auto
termination
proof (relation "measure (\<lambda>(f, s). length s)")
  show "wf (measure (\<lambda>(f, s). length s))" by simp
next
  fix f :: "nat \<Rightarrow> bool" and s :: string and i :: nat
  assume "s \<noteq> []" and "i = length s - snd (DecodeLastRuneInString s)"
  then show "((f, take i s), (f, s)) \<in> measure (\<lambda>(f, s). length s)"
    using decodeLast_size_pos[of s] by (cases s) auto
qed

declare lastIndexNot.simps [simp del]

definition TrimRightFunc :: "string \<Rightarrow> (nat \<Rightarrow> bool) \<Rightarrow> string" where
  "TrimRightFunc s f =
     (let i = lastIndexNot f s in
      if i \<ge> 0 \<and> byte (s ! nat i) \<ge> 0x80
      then take (nat i + snd (DecodeRuneInString (drop (nat i) s))) s
      else take (nat (i + 1)) s)"

definition TrimFunc :: "string \<Rightarrow> (nat \<Rightarrow> bool) \<Rightarrow> string" where
  "TrimFunc s f = TrimRightFunc (TrimLeftFunc s f) f"

text \<open>
  \<^verbatim>\<open>strings.TrimSpace(s)\<close> removes leading and trailing white space as Unicode defines
  it; its fast path for ASCII gives what \<^verbatim>\<open>TrimFunc(s, unicode.IsSpace)\<close> gives.
\<close>

definition TrimSpace :: "string \<Rightarrow> string" where
  "TrimSpace s = TrimFunc s IsSpace"

text \<open>
  \<^verbatim>\<open>strings.IndexAny(s, chars)\<close>: the byte offset of the first rune of \<open>s\<close> that is one
  of the runes of \<open>chars\<close>, or \<open>-1\<close>.
\<close>

definition IndexAny :: "string \<Rightarrow> string \<Rightarrow> int" where
  "IndexAny s chars =
     (case find (\<lambda>(i, c). c \<in> set (map snd (rangeLoop 0 chars))) (rangeLoop 0 s) of
        None \<Rightarrow> - 1
      | Some (i, c) \<Rightarrow> int i)"

definition HasPrefix :: "string \<Rightarrow> string \<Rightarrow> bool" where
  "HasPrefix s p = (length p \<le> length s \<and> take (length p) s = p)"

fun Contains :: "string \<Rightarrow> string \<Rightarrow> bool" where
  "Contains [] substr = (substr = [])"
| "Contains (c # cs) substr = (HasPrefix (c # cs) substr \<or> Contains cs substr)"

text \<open>\<^verbatim>\<open>strings.Join(parts, sep)\<close>\<close>

fun Join :: "string list \<Rightarrow> string \<Rightarrow> string" where
  "Join [] sep = []"
| "Join [p] sep = p"
| "Join (p # q # ps) sep = p @ sep @ Join (q # ps) sep"

subsection \<open>The regular expression of the cinema name\<close>

text \<open>
  \<^verbatim>\<open>regexp.MustCompile(`(.*?)`)\<close> with fullwidth parentheses U+FF08 and U+FF09 around
  the lazy \<^verbatim>\<open>.*?\<close>. A match starts at a fullwidth left parenthesis and runs to the
  nearest fullwidth right parenthesis after it; \<^verbatim>\<open>.\<close> takes one rune at a time and no
  line feed.
\<close>

definition openParen :: string where
  "openParen = [CHR 0xEF, CHR 0xBC, CHR 0x88]"

definition closeParen :: string where
  "closeParen = [CHR 0xEF, CHR 0xBC, CHR 0x89]"

text \<open>
  The rest of a match after the left parenthesis: the number of bytes up to and with
  the right parenthesis, when there is one to reach.
\<close>

function lazyClose :: "string \<Rightarrow> nat option" where
  "lazyClose s =
     (if HasPrefix s closeParen then Some 3
      else if s = [] then None
      else if fst (DecodeRuneInString s) = 0x0A then None
      else map_option (\<lambda>n. snd (DecodeRuneInString s) + n)
             (lazyClose (drop (snd (DecodeRuneInString s)) s)))"
  by pat_completeness auto
termination
proof (relation "measure length")
  show "wf (measure length)" by simp
next
  fix s :: string
  assume "s \<noteq> []"
  then show "(drop (snd (DecodeRuneInString s)) s, s) \<in> measure length"
    using decode_size_pos[of s] by (cases s) auto
qed

declare lazyClose.simps [simp del]

text \<open>The length of the match that starts at the head of \<open>s\<close>.\<close>

definition parenMatch :: "string \<Rightarrow> nat option" where
  "parenMatch s =
     (if HasPrefix s openParen then map_option (\<lambda>n. 3 + n) (lazyClose (drop 3 s)) else None)"

text \<open>
  \<^verbatim>\<open>re.ReplaceAllString(s, "")\<close>: every match, leftmost first and not overlapping,
  is taken out; where no match starts the search moves on by one rune.
\<close>

function removeParens :: "string \<Rightarrow> string" where
  "removeParens s =
     (if s = [] then []
      else (case parenMatch s of
              Some n \<Rightarrow> removeParens (drop n s)
            | None \<Rightarrow> take (snd (DecodeRuneInString s)) s
                        @ removeParens (drop (snd (DecodeRuneInString s)) s)))"
  by pat_completeness auto
termination
proof (relation "measure length")
  show "wf (measure length)" by simp
next
  fix s :: string and n :: nat
  assume "s \<noteq> []" and "parenMatch s = Some n"
  then have "0 < n" by (auto simp: parenMatch_def split: if_splits)
  with \<open>s \<noteq> []\<close> show "(drop n s, s) \<in> measure length" by (cases s) auto
next
  fix s :: string
  assume "s \<noteq> []"
  then show "(drop (snd (DecodeRuneInString s)) s, s) \<in> measure length"
    using decode_size_pos[of s] by (cases s) auto
qed

declare removeParens.simps [simp del]

text \<open>Lines 134 to 138 and 209 to 213: the cinema's name from the page title.\<close>

definition normalizeName :: "string \<Rightarrow> string" where
  "normalizeName rawName = removeParens rawName"

subsection \<open>The start time of a time span (lines 278 to 288)\<close>

text \<open>The second argument of \<^verbatim>\<open>IndexAny\<close>: the fullwidth tilde U+FF5E and the space.\<close>

definition tildeOrSpace :: string where
  "tildeOrSpace = [CHR 0xEF, CHR 0xBD, CHR 0x9E, CHR '' '']"

text \<open>\<open>None\<close> is the early return of the callback: the span is skipped.\<close>

definition startTimeOf :: "string \<Rightarrow> string option" where
  "startTimeOf spText =
     (let text = TrimSpace spText in
      if text = [] then None
      else
        let idx = IndexAny text tildeOrSpace;
            text = (if idx \<noteq> - 1 then take (nat idx) text else text)
        in if length text < 4 \<or> \<not> Contains text '':'' then None else Some text)"

section \<open>Calendar dates and the two date layouts (package time)\<close>

definition isLeap :: "int \<Rightarrow> bool" where
  "isLeap y = (y mod 4 = 0 \<and> (y mod 100 \<noteq> 0 \<or> y mod 400 = 0))"

definition daysIn :: "int \<Rightarrow> int \<Rightarrow> int" where
  "daysIn m y =
     (if m = 2 then (if isLeap y then 29 else 28)
      else if m = 4 \<or> m = 6 \<or> m = 9 \<or> m = 11 then 30 else 31)"

text \<open>The days of the year before the first of month \<open>m\<close>.\<close>

definition daysBefore :: "int \<Rightarrow> int \<Rightarrow> int" where
  "daysBefore m y =
     [0, 31, 59, 90, 120, 151, 181, 212, 243, 273, 304, 334] ! nat (m - 1)
       + (if isLeap y \<and> 3 \<le> m then 1 else 0)"

text \<open>
  The number of the day \<open>y-m-d\<close> of the proleptic Gregorian calendar, counted from
  1970-01-01, which is 719162 days after 0001-01-01.
\<close>

definition civilDay :: "int \<Rightarrow> int \<Rightarrow> int \<Rightarrow> int" where
  "civilDay y m d =
     365 * (y - 1) + (y - 1) div 4 - (y - 1) div 100 + (y - 1) div 400
       + daysBefore m y + (d - 1) - 719162"

text \<open>\<^verbatim>\<open>time.Date(y, m, d, 0, 0, 0, 0, time.UTC)\<close>\<close>

definition Date :: "int \<Rightarrow> int \<Rightarrow> int \<Rightarrow> Time" where
  "Date y m d = midnightUTC (civilDay y m d)"

definition isDigit :: "char \<Rightarrow> bool" where
  "isDigit c = (48 \<le> byte c \<and> byte c \<le> 57)"

text \<open>The value of a string of decimal digits.\<close>

definition atoi :: "string \<Rightarrow> int" where
  "atoi s = foldl (\<lambda>n c. 10 * n + (int (byte c) - 48)) 0 s"

text \<open>
  The date of the fields year, month and day as \<^verbatim>\<open>time.Parse\<close> checks them: four and
  two and two digits, the month from 1 to 12 and the day within the month.
\<close>

definition dateOfFields :: "string \<Rightarrow> string \<Rightarrow> string \<Rightarrow> Time option" where
  "dateOfFields ys ms ds =
     (if list_all isDigit (ys @ ms @ ds)
      then (let y = atoi ys; m = atoi ms; d = atoi ds in
            if m < 1 \<or> 12 < m \<or> d < 1 \<or> daysIn m y < d then None else Some (Date y m d))
      else None)"

text \<open>\<^verbatim>\<open>time.Parse("2006-01-02", s)\<close>; \<open>None\<close> is the error.\<close>

definition ParseDash :: "string \<Rightarrow> Time option" where
  "ParseDash s =
     (if length s = 10 \<and> s ! 4 = CHR ''-'' \<and> s ! 7 = CHR ''-''
      then dateOfFields (take 4 s) (take 2 (drop 5 s)) (drop 8 s)
      else None)"

text \<open>\<^verbatim>\<open>time.Parse("20060102", s)\<close> for a string of eight bytes.\<close>

definition ParseCompact :: "string \<Rightarrow> Time option" where
  "ParseCompact s =
     (if length s = 8 then dateOfFields (take 4 s) (take 2 (drop 4 s)) (drop 6 s) else None)"

section \<open>The entities (models.go, main.go)\<close>

text \<open>
  The structs as records. The fields \<^verbatim>\<open>CreatedAt\<close> and \<^verbatim>\<open>UpdatedAt\<close>, which only the
  ORM writes, are left out. Ratings are \<^verbatim>\<open>float64\<close> values that the program copies
  and compares with zero; they are real numbers here.
\<close>

record Movie =
  ID :: nat
  TMDBID :: int
  IMDBID :: string
  TitleCN :: string
  TitleEN :: string
  TitleJP :: string
  Director :: string
  Year :: string
  Synopsis :: string
  Poster :: string
  Backdrop :: string
  Runtime :: int
  Genre :: string
  CastJSON :: string
  TMDBRating :: real
  IMDBRating :: real
  DoubanRating :: real
  Status :: string
  ReleaseDate :: Time
  CuratorNote :: string

text \<open>The zero value \<^verbatim>\<open>Movie{}\<close>; the zero \<^verbatim>\<open>time.Time\<close> is 0001-01-01 00:00 UTC.\<close>

definition zeroTime :: Time where
  "zeroTime = \<lparr>ns = zero_ns, zone = 0\<rparr>"

definition zeroMovie :: Movie where
  "zeroMovie =
     \<lparr>ID = 0, TMDBID = 0, IMDBID = [], TitleCN = [], TitleEN = [], TitleJP = [],
      Director = [], Year = [], Synopsis = [], Poster = [], Backdrop = [], Runtime = 0,
      Genre = [], CastJSON = [], TMDBRating = 0, IMDBRating = 0, DoubanRating = 0,
      Status = [], ReleaseDate = zeroTime, CuratorNote = []\<rparr>"

record Cinema =
  Cinema_ID :: nat
  NameJP :: string
  Address :: string
  Latitude :: real
  Longitude :: real
  BuildingPhoto :: string
  Website :: string

record Schedule =
  Schedule_ID :: nat
  MovieID :: nat
  CinemaID :: nat
  PlayDate :: Time
  StartTime :: string

text \<open>The JSON of a TMDB movie detail, as \<^verbatim>\<open>enrichMovieRatings\<close> decodes it.\<close>

record CastEntry =
  cast_Name :: string
  cast_Character :: string
  cast_ProfilePath :: string

record CrewEntry =
  crew_Name :: string
  crew_Job :: string

record TmdbData =
  d_ImdbID :: string
  d_Title :: string
  d_Overview :: string
  d_PosterPath :: string
  d_BackdropPath :: string
  d_ReleaseDate :: string
  d_Runtime :: int
  d_VoteAverage :: real
  d_Genres :: "string list"
  d_Cast :: "CastEntry list"
  d_Crew :: "CrewEntry list"

record castOut =
  out_Name :: string
  out_Role :: string
  out_Img :: string

section \<open>The outside world and the state\<close>

text \<open>
  What the services answer during a run, as functions of the query; the clock; and the
  JSON encoder. \<open>tmdbSearch\<close> is the first result's ID of the TMDB search, or 0 when
  the request or the decoding fails or nothing is found (\<^verbatim>\<open>searchTmdbID\<close>).
  \<open>tmdbMovie id lang\<close> is the decoded detail, or \<open>None\<close> when the request or the decoding
  fails. \<open>omdb\<close> is the rating and the raw answer of OMDb (\<^verbatim>\<open>fetchImdbRating\<close> for an
  ID that is not empty), \<open>douban\<close> the result of \<^verbatim>\<open>fetchDoubanRating\<close>.
\<close>

record Env =
  tmdbSearch :: "string \<Rightarrow> int"
  tmdbMovie :: "int \<Rightarrow> string \<Rightarrow> TmdbData option"
  omdb :: "string \<Rightarrow> real \<times> string"
  douban :: "string \<Rightarrow> string \<Rightarrow> real"
  marshal :: "castOut list \<Rightarrow> string"
  now :: Time

datatype Request =
    TmdbSearch string
  | TmdbMovie int string
  | Omdb string
  | Douban string string

text \<open>
  The database and the queries sent so far. A table is the list of its rows in the
  order of their primary keys; a new row gets the next key and goes last.
\<close>

record State =
  movies :: "Movie list"
  schedules :: "Schedule list"
  cinemas :: "Cinema list"
  requests :: "Request list"

definition sent :: "Request \<Rightarrow> State \<Rightarrow> State" where
  "sent q st = st\<lparr>requests := requests st @ [q]\<rparr>"

subsection \<open>The store (gorm on SQLite)\<close>

text \<open>
  The operations the program uses, on a store that answers every query; an I/O error of
  the database, after which the program logs and skips the record, is outside the model.
\<close>

definition nextKey :: "nat list \<Rightarrow> nat" where
  "nextKey ks = Suc (foldl max 0 ks)"

text \<open>\<^verbatim>\<open>db.Where(&Movie{TitleJP: titleJP}).First(&movie)\<close>; \<open>None\<close> is ErrRecordNotFound.\<close>

definition firstMovieByTitleJP :: "string \<Rightarrow> State \<Rightarrow> Movie option" where
  "firstMovieByTitleJP titleJP st = find (\<lambda>r. TitleJP r = titleJP) (movies st)"

text \<open>\<^verbatim>\<open>db.Create(&movie)\<close>: the row is inserted under the next key, which the struct receives.\<close>

definition createMovie :: "Movie \<Rightarrow> State \<Rightarrow> Movie \<times> State" where
  "createMovie m st =
     (let m' = m\<lparr>ID := nextKey (map ID (movies st))\<rparr>
      in (m', st\<lparr>movies := movies st @ [m']\<rparr>))"

text \<open>
  \<^verbatim>\<open>db.Save(m)\<close>: all fields of the row with the key of \<open>m\<close> are written; without such
  a row, \<open>m\<close> is inserted (under the next key when its own is zero).
\<close>

definition saveMovie :: "Movie \<Rightarrow> State \<Rightarrow> State" where
  "saveMovie m st =
     (if ID m \<in> set (map ID (movies st))
      then st\<lparr>movies := map (\<lambda>r. if ID r = ID m then m else r) (movies st)\<rparr>
      else st\<lparr>movies := movies st
             @ [if ID m = 0 then m\<lparr>ID := nextKey (map ID (movies st))\<rparr> else m]\<rparr>)"

text \<open>\<^verbatim>\<open>db.Model(&movie).Update("status", newStatus)\<close>\<close>

definition updateStatus :: "nat \<Rightarrow> string \<Rightarrow> State \<Rightarrow> State" where
  "updateStatus k newStatus st =
     st\<lparr>movies := map (\<lambda>r. if ID r = k then r\<lparr>Status := newStatus\<rparr> else r) (movies st)\<rparr>"

text \<open>\<^verbatim>\<open>db.Where("name_jp = ?", nameJP).First(&cinema)\<close>\<close>

definition firstCinemaByName :: "string \<Rightarrow> State \<Rightarrow> Cinema option" where
  "firstCinemaByName nameJP st = find (\<lambda>c. NameJP c = nameJP) (cinemas st)"

text \<open>
  \<^verbatim>\<open>db.Where("movie_id = ? AND cinema_id = ? AND play_date = ? AND start_time = ?", ...)
  .FirstOrCreate(&sched)\<close>: a row with the four values is left as it is; without one,
  \<open>sched\<close> is inserted.
\<close>

definition sameSlot :: "Schedule \<Rightarrow> Schedule \<Rightarrow> bool" where
  "sameSlot a b =
     (MovieID a = MovieID b \<and> CinemaID a = CinemaID b
      \<and> PlayDate a = PlayDate b \<and> StartTime a = StartTime b)"

definition firstOrCreateSchedule :: "Schedule \<Rightarrow> State \<Rightarrow> State" where
  "firstOrCreateSchedule sched st =
     (case find (sameSlot sched) (schedules st) of
        Some row \<Rightarrow> st
      | None \<Rightarrow>
          st\<lparr>schedules := schedules st
               @ [sched\<lparr>Schedule_ID := nextKey (map Schedule_ID (schedules st))\<rparr>]\<rparr>)"

section \<open>Metadata enrichment: enrichMovieRatings\<close>

definition ENABLE_DOUBAN_RATING :: bool where
  "ENABLE_DOUBAN_RATING = False"

text \<open>The three helpers of main.go that query a service; each query is recorded.\<close>

definition searchTmdbID :: "Env \<Rightarrow> string \<Rightarrow> State \<Rightarrow> int \<times> State" where
  "searchTmdbID env title st = (tmdbSearch env title, sent (TmdbSearch title) st)"

definition fetchImdbRating :: "Env \<Rightarrow> string \<Rightarrow> State \<Rightarrow> (real \<times> string) \<times> State" where
  "fetchImdbRating env imdbID st =
     (if imdbID = [] then ((0, []), st) else (omdb env imdbID, sent (Omdb imdbID) st))"

definition fetchDoubanRating :: "Env \<Rightarrow> string \<Rightarrow> string \<Rightarrow> State \<Rightarrow> real \<times> State" where
  "fetchDoubanRating env title year st = (douban env title year, sent (Douban title year) st)"

subsection \<open>One decoded detail response (lines 504 to 598)\<close>

definition fillRating :: "TmdbData \<Rightarrow> Movie \<Rightarrow> Movie" where
  "fillRating data m =
     (if d_VoteAverage data > 0 \<and> TMDBRating m = 0
      then m\<lparr>TMDBRating := d_VoteAverage data\<rparr> else m)"

definition fillSynopsis :: "TmdbData \<Rightarrow> Movie \<Rightarrow> Movie" where
  "fillSynopsis data m =
     (if Synopsis m = [] \<and> TrimSpace (d_Overview data) \<noteq> []
      then m\<lparr>Synopsis := d_Overview data\<rparr> else m)"

definition fillPoster :: "TmdbData \<Rightarrow> Movie \<Rightarrow> Movie" where
  "fillPoster data m =
     (if d_PosterPath data \<noteq> [] \<and> Poster m = []
      then m\<lparr>Poster := ''https://image.tmdb.org/t/p/w500'' @ d_PosterPath data\<rparr> else m)"

definition fillBackdrop :: "TmdbData \<Rightarrow> Movie \<Rightarrow> Movie" where
  "fillBackdrop data m =
     (if d_BackdropPath data \<noteq> [] \<and> Backdrop m = []
      then m\<lparr>Backdrop := ''https://image.tmdb.org/t/p/original'' @ d_BackdropPath data\<rparr>
      else m)"

definition fillRelease :: "TmdbData \<Rightarrow> Movie \<Rightarrow> Movie" where
  "fillRelease data m =
     (if d_ReleaseDate data \<noteq> []
      then
        let m1 = (if Year m = [] \<and> length (d_ReleaseDate data) \<ge> 4
                  then m\<lparr>Year := take 4 (d_ReleaseDate data)\<rparr> else m)
        in if IsZero (ReleaseDate m1)
           then (case ParseDash (d_ReleaseDate data) of
                   Some t \<Rightarrow> m1\<lparr>ReleaseDate := t\<rparr>
                 | None \<Rightarrow> m1)
           else m1
      else m)"

definition fillRuntime :: "TmdbData \<Rightarrow> Movie \<Rightarrow> Movie" where
  "fillRuntime data m =
     (if d_Runtime data > 0 \<and> Runtime m = 0 then m\<lparr>Runtime := d_Runtime data\<rparr> else m)"

definition fillGenre :: "TmdbData \<Rightarrow> Movie \<Rightarrow> Movie" where
  "fillGenre data m =
     (if length (d_Genres data) > 0 \<and> Genre m = []
      then m\<lparr>Genre := Join (filter (\<lambda>g. TrimSpace g \<noteq> []) (d_Genres data)) '', ''\<rparr>
      else m)"

definition fillDirector :: "TmdbData \<Rightarrow> Movie \<Rightarrow> Movie" where
  "fillDirector data m =
     (if Director m = []
      then (case find (\<lambda>crew. crew_Job crew = ''Director'') (d_Crew data) of
              Some crew \<Rightarrow> m\<lparr>Director := crew_Name crew\<rparr>
            | None \<Rightarrow> m)
      else m)"

definition toCastOut :: "CastEntry \<Rightarrow> castOut" where
  "toCastOut c =
     \<lparr>out_Name = cast_Name c, out_Role = cast_Character c,
      out_Img = (if cast_ProfilePath c \<noteq> []
                 then ''https://image.tmdb.org/t/p/w185'' @ cast_ProfilePath c else [])\<rparr>"

definition fillCast :: "Env \<Rightarrow> string \<Rightarrow> TmdbData \<Rightarrow> Movie \<Rightarrow> Movie" where
  "fillCast env lang data m =
     (if (lang = ''zh-CN'' \<or> lang = ''en-US'') \<and> CastJSON m = [] \<and> length (d_Cast data) > 0
      then
        let limit = (if length (d_Cast data) > 8 then 8 else length (d_Cast data))
        in m\<lparr>CastJSON := marshal env (map toCastOut (take limit (d_Cast data)))\<rparr>
      else m)"

text \<open>The switch on the language; the second component is the local \<^verbatim>\<open>imdbID\<close>.\<close>

definition fillTitles :: "string \<Rightarrow> TmdbData \<Rightarrow> Movie \<times> string \<Rightarrow> Movie \<times> string" where
  "fillTitles lang data mi =
     (let m = fst mi; imdbID = snd mi in
      if lang = ''zh-CN''
      then ((if d_Title data \<noteq> [] then m\<lparr>TitleCN := d_Title data\<rparr> else m),
            (if imdbID = [] then d_ImdbID data else imdbID))
      else if lang = ''ja-JP''
      then ((if d_Title data \<noteq> [] \<and> TitleJP m = [] then m\<lparr>TitleJP := d_Title data\<rparr> else m),
            imdbID)
      else if lang = ''en-US''
      then ((if d_Title data \<noteq> [] then m\<lparr>TitleEN := d_Title data\<rparr> else m),
            (if imdbID = [] then d_ImdbID data else imdbID))
      else (m, imdbID))"

definition applyDetail :: "Env \<Rightarrow> string \<Rightarrow> TmdbData \<Rightarrow> Movie \<times> string \<Rightarrow> Movie \<times> string" where
  "applyDetail env lang data mi =
     fillTitles lang data
       (fillCast env lang data
          (fillDirector data (fillGenre data (fillRuntime data (fillRelease data
             (fillBackdrop data (fillPoster data (fillSynopsis data
                (fillRating data (fst mi))))))))),
        snd mi)"

text \<open>
  The locals of \<^verbatim>\<open>enrichMovieRatings\<close> that the loop over the languages changes, and
  the state.
\<close>

record Enriching =
  the_m :: Movie
  the_imdbID :: string
  the_st :: State

definition langStep :: "Env \<Rightarrow> int \<Rightarrow> Enriching \<Rightarrow> string \<Rightarrow> Enriching" where
  "langStep env tmdbID e lang =
     (let st' = sent (TmdbMovie tmdbID lang) (the_st e) in
      case tmdbMovie env tmdbID lang of
        None \<Rightarrow> e\<lparr>the_st := st'\<rparr>
      | Some data \<Rightarrow>
          (let mi = applyDetail env lang data (the_m e, the_imdbID e)
           in \<lparr>the_m = fst mi, the_imdbID = snd mi, the_st = st'\<rparr>))"

definition langs :: "string list" where
  "langs = [''zh-CN'', ''ja-JP'', ''en-US'']"

subsection \<open>Steps 3 to 5 and the whole function\<close>

definition imdbStep :: "Env \<Rightarrow> Enriching \<Rightarrow> Movie \<times> State" where
  "imdbStep env e =
     (if the_imdbID e \<noteq> []
      then
        let r = fetchImdbRating env (the_imdbID e) (the_st e);
            imdbRating = fst (fst r)
        in ((the_m e)\<lparr>IMDBID := the_imdbID e, IMDBRating := imdbRating\<rparr>, snd r)
      else (the_m e, the_st e))"

definition releaseFallback :: "Movie \<Rightarrow> Movie" where
  "releaseFallback m =
     (if IsZero (ReleaseDate m) \<and> Year m \<noteq> []
      then (case ParseDash (Year m @ ''-01-01'') of
              Some t \<Rightarrow> m\<lparr>ReleaseDate := t\<rparr>
            | None \<Rightarrow> m)
      else m)"

definition doubanStep :: "Env \<Rightarrow> Movie \<times> State \<Rightarrow> Movie \<times> State" where
  "doubanStep env ms =
     (let m = fst ms; st = snd ms in
      if ENABLE_DOUBAN_RATING \<and> TitleEN m \<noteq> [] \<and> Year m \<noteq> []
      then
        let r = fetchDoubanRating env (TitleEN m) (Year m) st
        in (m\<lparr>DoubanRating := fst r\<rparr>, snd r)
      else (m, st))"

text \<open>The test of line 431: nothing is missing.\<close>

definition isComplete :: "Movie \<Rightarrow> bool" where
  "isComplete m =
     (TitleCN m \<noteq> [] \<and> TitleEN m \<noteq> [] \<and> TMDBRating m > 0 \<and> \<not> IsZero (ReleaseDate m))"

text \<open>
  \<^verbatim>\<open>enrichMovieRatings(m *Movie)\<close>: the movie behind the pointer after the call, and
  the state after the call.
\<close>

definition enrichMovieRatings :: "Env \<Rightarrow> Movie \<Rightarrow> State \<Rightarrow> Movie \<times> State" where
  "enrichMovieRatings env m st =
     (if isComplete m then (m, st)
      else
        let cleanTitle = TrimSpace (TitleJP m) in
        if cleanTitle = [] then (m, st)
        else
          let s = searchTmdbID env cleanTitle st;
              tmdbID = fst s
          in if tmdbID = 0 then (m, snd s)
             else
               let m1 = (if TMDBID m = 0 then m\<lparr>TMDBID := tmdbID\<rparr> else m);
                   e = foldl (langStep env tmdbID)
                         \<lparr>the_m = m1, the_imdbID = [], the_st = snd s\<rparr> langs;
                   ms3 = imdbStep env e;
                   ms5 = doubanStep env (releaseFallback (fst ms3), snd ms3)
               in (fst ms5, saveMovie (fst ms5) (snd ms5)))"

text \<open>The calls that get as far as \<^verbatim>\<open>db.Save(m)\<close>.\<close>

definition reachesSave :: "Env \<Rightarrow> Movie \<Rightarrow> bool" where
  "reachesSave env m =
     (\<not> isComplete m \<and> TrimSpace (TitleJP m) \<noteq> []
      \<and> tmdbSearch env (TrimSpace (TitleJP m)) \<noteq> 0)"

text \<open>
  Steps 1 to 3 of such a call, lines 441 to 612: the movie and the state as step 4, the
  fallback of the release date, finds them.
\<close>

definition beforeFallback :: "Env \<Rightarrow> Movie \<Rightarrow> State \<Rightarrow> Movie \<times> State" where
  "beforeFallback env m st =
     (let s = searchTmdbID env (TrimSpace (TitleJP m)) st;
          tmdbID = fst s;
          m1 = (if TMDBID m = 0 then m\<lparr>TMDBID := tmdbID\<rparr> else m);
          e = foldl (langStep env tmdbID)
                \<lparr>the_m = m1, the_imdbID = [], the_st = snd s\<rparr> langs
      in imdbStep env e)"

section \<open>Status derivation\<close>

subsection \<open>Full batch: the loop body of updateMovieStatusFromSchedules\<close>

text \<open>
  The scan over the schedules of one movie keeps \<^verbatim>\<open>earliestDate\<close>, \<^verbatim>\<open>latestDate\<close>
  (nil pointers at first) and \<^verbatim>\<open>hasPastOrToday\<close>. The pointers are taken to the
  per-iteration variable \<^verbatim>\<open>sched\<close> (Go 1.22 and later), so each holds the value it was
  given.
\<close>

record Scan =
  earliestDate :: "Time option"
  latestDate :: "Time option"
  hasPastOrToday :: bool

definition scanStep :: "int \<Rightarrow> Scan \<Rightarrow> Time \<Rightarrow> Scan" where
  "scanStep todayStr s playDate =
     (let s1 = (if Format playDate \<le> todayStr then s\<lparr>hasPastOrToday := True\<rparr> else s);
          s2 = (case earliestDate s1 of
                  None \<Rightarrow> s1\<lparr>earliestDate := Some playDate\<rparr>
                | Some e \<Rightarrow> if Before playDate e then s1\<lparr>earliestDate := Some playDate\<rparr> else s1)
      in (case latestDate s2 of
            None \<Rightarrow> s2\<lparr>latestDate := Some playDate\<rparr>
          | Some l \<Rightarrow> if After playDate l then s2\<lparr>latestDate := Some playDate\<rparr> else s2))"

definition scanInit :: Scan where
  "scanInit = \<lparr>earliestDate = None, latestDate = None, hasPastOrToday = False\<rparr>"

definition batchStatus :: "Time \<Rightarrow> Time list \<Rightarrow> string" where
  "batchStatus today playDates =
     (if playDates = [] then ''unplanned''
      else
        let todayStr = Format today;
            s = foldl (scanStep todayStr) scanInit playDates
        in if (case latestDate s of None \<Rightarrow> False | Some l \<Rightarrow> Format l < todayStr)
           then ''unplanned''
           else (case earliestDate s of
                   None \<Rightarrow> ''showing''
                 | Some e \<Rightarrow>
                     if hasPastOrToday s then ''showing''
                     else
                       let tomorrow = AddDate today 1;
                           sevenDaysLater = AddDate today 7;
                           earliest = Truncate e
                       in if Before earliest tomorrow then ''incoming''
                          else if (Equal earliest tomorrow \<or> After earliest tomorrow)
                                  \<and> (Before earliest sevenDaysLater \<or> Equal earliest sevenDaysLater)
                            then ''incoming''
                          else if After earliest sevenDaysLater then ''future''
                          else ''showing''))"

subsection \<open>Incremental: step 3 of a movie section in syncSchedulesFromEiga\<close>

text \<open>
  \<^verbatim>\<open>playDatesMap\<close> has the date strings seen in the section as keys. The loop ranges
  over the keys in an order Go does not fix, here the order of the list. Each key was
  printed by \<^verbatim>\<open>Format\<close>, so parsing it back succeeds and gives midnight UTC.
\<close>

record IncScan =
  incEarliest :: "Time option"
  incHasPastOrToday :: bool

definition incStep :: "int \<Rightarrow> IncScan \<Rightarrow> int \<Rightarrow> IncScan" where
  "incStep todayStr s dateStr =
     (let parsedDate = midnightUTC dateStr;
          s1 = (if dateStr \<le> todayStr then s\<lparr>incHasPastOrToday := True\<rparr> else s)
      in (case incEarliest s1 of
            None \<Rightarrow> s1\<lparr>incEarliest := Some parsedDate\<rparr>
          | Some e \<Rightarrow> if Before parsedDate e then s1\<lparr>incEarliest := Some parsedDate\<rparr> else s1))"

definition incrementalStatus :: "Time \<Rightarrow> int list \<Rightarrow> string" where
  "incrementalStatus today playDatesMap =
     (let todayStr = Format today;
          tomorrowStr = Format (AddDate today 1);
          sevenDaysLater = AddDate today 7;
          s = foldl (incStep todayStr) \<lparr>incEarliest = None, incHasPastOrToday = False\<rparr> playDatesMap
      in (case incEarliest s of
            None \<Rightarrow> ''showing''
          | Some e \<Rightarrow>
              if incHasPastOrToday s then ''showing''
              else if Format e \<ge> tomorrowStr
                      \<and> (Before e sevenDaysLater \<or> Equal e sevenDaysLater)
                then ''incoming''
              else ''showing''))"


section \<open>Schedule ingestion: syncSchedulesFromEiga\<close>

text \<open>
  What the scraper hands to the callbacks: of a cinema's page the text of its title
  and its movie sections in order, of a section the text of its heading link and its
  table cells with a \<^verbatim>\<open>data-date\<close>, of a cell that attribute and the texts of its spans.
\<close>

record Cell =
  dataDate :: string
  spans :: "string list"

record MovieSection =
  heading :: string
  cells :: "Cell list"

record TheaterPage =
  pageTitle :: string
  movieSections :: "MovieSection list"

text \<open>The play date of a cell; \<open>None\<close> when the callback returns before the spans.\<close>

definition cellDate :: "Cell \<Rightarrow> Time option" where
  "cellDate td =
     (let dateRaw = TrimSpace (dataDate td) in
      if length dateRaw \<noteq> 8 then None else ParseCompact dateRaw)"

definition spanStep :: "Movie \<Rightarrow> Cinema \<Rightarrow> Time \<Rightarrow> State \<Rightarrow> string \<Rightarrow> State" where
  "spanStep movie cinema playDate st spText =
     (case startTimeOf spText of
        None \<Rightarrow> st
      | Some text \<Rightarrow>
          firstOrCreateSchedule
            \<lparr>Schedule_ID = 0, MovieID = ID movie, CinemaID = Cinema_ID cinema,
             PlayDate = playDate, StartTime = text\<rparr> st)"

text \<open>
  The first component is \<^verbatim>\<open>playDatesMap\<close>: its keys, each once. A key is the date
  string of the play date, that is, the number of its day.
\<close>

definition cellStep :: "Movie \<Rightarrow> Cinema \<Rightarrow> int list \<times> State \<Rightarrow> Cell \<Rightarrow> int list \<times> State" where
  "cellStep movie cinema acc td =
     (case cellDate td of
        None \<Rightarrow> acc
      | Some playDate \<Rightarrow>
          (List.insert (Format playDate) (fst acc),
           foldl (spanStep movie cinema playDate) (snd acc) (spans td)))"

text \<open>Step 3 of a section, lines 312 to 359.\<close>

definition statusStep :: "Env \<Rightarrow> Movie \<Rightarrow> int list \<Rightarrow> State \<Rightarrow> State" where
  "statusStep env movie playDatesMap st =
     (if length playDatesMap > 0
      then
        let newStatus = incrementalStatus (now env) playDatesMap
        in if Status movie \<noteq> newStatus then updateStatus (ID movie) newStatus st else st
      else st)"

text \<open>Step 1 of a section, lines 236 to 252: the movie of the title, found or created.\<close>

definition findOrCreateMovie :: "string \<Rightarrow> State \<Rightarrow> Movie \<times> State" where
  "findOrCreateMovie titleJP st =
     (case firstMovieByTitleJP titleJP st of
        Some movie \<Rightarrow> (movie, st)
      | None \<Rightarrow> createMovie (zeroMovie\<lparr>TitleJP := titleJP, Status := ''showing''\<rparr>) st)"

text \<open>A section up to the call of \<^verbatim>\<open>enrichMovieRatings\<close>, line 256.\<close>

definition sectionHead :: "Env \<Rightarrow> string \<Rightarrow> State \<Rightarrow> Movie \<times> State" where
  "sectionHead env titleJP st =
     (let ms = findOrCreateMovie titleJP st
      in enrichMovieRatings env (fst ms) (snd ms))"

definition sectionStep :: "Env \<Rightarrow> Cinema \<Rightarrow> State \<Rightarrow> MovieSection \<Rightarrow> State" where
  "sectionStep env cinema st sec =
     (let titleJP = TrimSpace (heading sec) in
      if titleJP = [] then st
      else
        let ms = sectionHead env titleJP st;
            movie = fst ms;
            acc = foldl (cellStep movie cinema) ([], snd ms) (cells sec)
        in statusStep env movie (fst acc) (snd acc))"

text \<open>The callback of a cinema's page.\<close>

definition pageStep :: "Env \<Rightarrow> State \<Rightarrow> TheaterPage \<Rightarrow> State" where
  "pageStep env st page =
     (let rawName = pageTitle page in
      if rawName = [] then st
      else
        let nameJP = normalizeName rawName in
        case firstCinemaByName nameJP st of
          None \<Rightarrow> st
        | Some cinema \<Rightarrow> foldl (sectionStep env cinema) st (movieSections page))"

text \<open>
  The run over the pages of the cinemas that the listing links to. The clock is read
  once in each section; \<open>now env\<close> stands for each reading.
\<close>

definition syncSchedulesFromEiga :: "Env \<Rightarrow> TheaterPage list \<Rightarrow> State \<Rightarrow> State" where
  "syncSchedulesFromEiga env pages st = foldl (pageStep env) st pages"

section \<open>The full-batch pass: updateMovieStatusFromSchedules\<close>

definition movieStatusStep :: "Time \<Rightarrow> State \<Rightarrow> Movie \<Rightarrow> State" where
  "movieStatusStep today st movie =
     (let rows = filter (\<lambda>s. MovieID s = ID movie) (schedules st);
          newStatus = batchStatus today (map PlayDate rows)
      in if Status movie \<noteq> newStatus then updateStatus (ID movie) newStatus st else st)"

definition updateMovieStatusFromSchedules :: "Time \<Rightarrow> State \<Rightarrow> State" where
  "updateMovieStatusFromSchedules today st = foldl (movieStatusStep today) st (movies st)"

section \<open>Sample inputs\<close>

text \<open>Concrete movies, answers of the services and states, for the closed theorems.\<close>

definition emptyState :: State where
  "emptyState = \<lparr>movies = [], schedules = [], cinemas = [], requests = []\<rparr>"

definition zeroData :: TmdbData where
  "zeroData =
     \<lparr>d_ImdbID = [], d_Title = [], d_Overview = [], d_PosterPath = [], d_BackdropPath = [],
      d_ReleaseDate = [], d_Runtime = 0, d_VoteAverage = 0, d_Genres = [], d_Cast = [],
      d_Crew = []\<rparr>"

text \<open>
  A stored movie whose Chinese title is still missing, so that every scrape enriches it
  again.
\<close>

definition perfectDays :: Movie where
  "perfectDays =
     zeroMovie\<lparr>ID := 1, TMDBID := 976893, IMDBID := ''tt27503384'',
       TitleEN := ''Perfect Days'', TitleJP := ''PERFECT DAYS'', Year := ''2023'',
       TMDBRating := 7.9, IMDBRating := 7.9, Status := ''showing'',
       ReleaseDate := Date 2023 12 22\<rparr>"

definition oneMovie :: State where
  "oneMovie = emptyState\<lparr>movies := [perfectDays]\<rparr>"

text \<open>TMDB answers in English only; the request to OMDb fails.\<close>

definition omdbDown :: Env where
  "omdbDown =
     \<lparr>tmdbSearch = (\<lambda>title. 976893),
      tmdbMovie = (\<lambda>k lang. if lang = ''en-US''
                     then Some (zeroData\<lparr>d_ImdbID := ''tt27503384'', d_Title := ''Perfect Days'',
                                  d_VoteAverage := 7.9, d_ReleaseDate := ''2023-12-22''\<rparr>)
                     else None),
      omdb = (\<lambda>k. (0, [])),
      douban = (\<lambda>title year. 0),
      marshal = (\<lambda>out. []),
      now = wallClock 20463 8 0 32400\<rparr>"

text \<open>The TMDB search now puts another film of the same title first.\<close>

definition otherFilmFirst :: Env where
  "otherFilmFirst =
     \<lparr>tmdbSearch = (\<lambda>title. 1111),
      tmdbMovie = (\<lambda>k lang. if k = 1111 \<and> lang = ''en-US''
                     then Some (zeroData\<lparr>d_ImdbID := ''tt0000002'', d_Title := ''Perfect Days''\<rparr>)
                     else None),
      omdb = (\<lambda>k. (6.1, [])),
      douban = (\<lambda>title year. 0),
      marshal = (\<lambda>out. []),
      now = wallClock 20463 8 0 32400\<rparr>"

text \<open>The TMDB search answers, the detail requests fail.\<close>

definition detailsDown :: Env where
  "detailsDown =
     \<lparr>tmdbSearch = (\<lambda>title. 976893),
      tmdbMovie = (\<lambda>k lang. None),
      omdb = (\<lambda>k. (0, [])),
      douban = (\<lambda>title year. 0),
      marshal = (\<lambda>out. []),
      now = wallClock 20463 8 0 32400\<rparr>"

text \<open>The Chinese detail carries a release date that is no date.\<close>

definition oddDate :: Env where
  "oddDate =
     \<lparr>tmdbSearch = (\<lambda>title. 976893),
      tmdbMovie = (\<lambda>k lang. if lang = ''zh-CN''
                     then Some (zeroData\<lparr>d_ReleaseDate := ''TBA 2027''\<rparr>)
                     else None),
      omdb = (\<lambda>k. (0, [])),
      douban = (\<lambda>title year. 0),
      marshal = (\<lambda>out. []),
      now = wallClock 20463 8 0 32400\<rparr>"

text \<open>A movie as the scraper has just created it, and one of which only the year is known.\<close>

definition fresh :: Movie where
  "fresh = zeroMovie\<lparr>ID := 1, TitleJP := ''PERFECT DAYS'', Status := ''showing''\<rparr>"

definition yearOnly :: Movie where
  "yearOnly = fresh\<lparr>Year := ''2023''\<rparr>"

text \<open>The first seed movie of models.go, which lacks nothing.\<close>

definition theHunt :: Movie where
  "theHunt =
     zeroMovie\<lparr>ID := 1, TitleCN := [CHR 0xE7, CHR 0x8B, CHR 0xA9, CHR 0xE7, CHR 0x8C, CHR 0x8E],
       TitleEN := ''THE HUNT'', Director := ''Thomas Vinterberg'', Year := ''2012'',
       TMDBRating := 8.1, IMDBRating := 8.3, DoubanRating := 9.1, Status := ''showing'',
       ReleaseDate := Date 2026 1 21\<rparr>"

text \<open>
  One movie with one schedule row on 2026-01-17, the day 20470, and the clock at 08:00
  Japan Standard Time on 2026-01-10, the day 20463.
\<close>

definition oneShow :: State where
  "oneShow =
     emptyState\<lparr>movies := [perfectDays\<lparr>Status := ''incoming''\<rparr>],
       schedules := [\<lparr>Schedule_ID = 1, MovieID = 1, CinemaID = 1, PlayDate = Date 2026 1 17,
                      StartTime = ''18:05''\<rparr>]\<rparr>"

definition morningInTokyo :: Time where
  "morningInTokyo = wallClock 20463 8 0 32400"

text \<open>
  Texts in UTF-8. A fullwidth nine, a colon and a fullwidth five: three characters, seven
  bytes. The span text \<open>18:05\<close>, fullwidth tilde U+FF5E, \<open>20:00\<close>. The cinema name Shinjuku
  Piccadilly and the annotation Shinjuku-ku, both in Japanese. A name with an annotation
  in fullwidth parentheses that is not at its end.
\<close>

definition nineColonFive :: string where
  "nineColonFive = [CHR 0xEF, CHR 0xBC, CHR 0x99, CHR 0x3A, CHR 0xEF, CHR 0xBC, CHR 0x95]"

definition eighteenOhFive :: string where
  "eighteenOhFive = ''18:05'' @ [CHR 0xEF, CHR 0xBD, CHR 0x9E] @ ''20:00''"

definition shinjukuPiccadilly :: string where
  "shinjukuPiccadilly =
     [CHR 0xE6, CHR 0x96, CHR 0xB0, CHR 0xE5, CHR 0xAE, CHR 0xBF, CHR 0xE3, CHR 0x83, CHR 0x94,
      CHR 0xE3, CHR 0x82, CHR 0xAB, CHR 0xE3, CHR 0x83, CHR 0x87, CHR 0xE3, CHR 0x83, CHR 0xAA,
      CHR 0xE3, CHR 0x83, CHR 0xBC]"

definition shinjukuKu :: string where
  "shinjukuKu =
     [CHR 0xE6, CHR 0x96, CHR 0xB0, CHR 0xE5, CHR 0xAE, CHR 0xBF, CHR 0xE5, CHR 0x8C, CHR 0xBA]"

definition annexInside :: string where
  "annexInside = ''A'' @ openParen @ ''x'' @ closeParen @ ''B''"

text \<open>
  A database with one cinema and the page of that cinema: the title with the district
  in fullwidth parentheses, one movie, one day, two shows. The TMDB search finds
  nothing, and the clock is at noon Japan Standard Time on 2026-01-10.
\<close>

definition searchEmpty :: Env where
  "searchEmpty =
     \<lparr>tmdbSearch = (\<lambda>title. 0),
      tmdbMovie = (\<lambda>k lang. None),
      omdb = (\<lambda>k. (0, [])),
      douban = (\<lambda>title year. 0),
      marshal = (\<lambda>out. []),
      now = wallClock 20463 12 0 32400\<rparr>"

definition piccadilly :: Cinema where
  "piccadilly =
     \<lparr>Cinema_ID = 1, NameJP = shinjukuPiccadilly, Address = [], Latitude = 0, Longitude = 0,
      BuildingPhoto = [], Website = []\<rparr>"

definition oneCinema :: State where
  "oneCinema = emptyState\<lparr>cinemas := [piccadilly]\<rparr>"

definition weekPage :: TheaterPage where
  "weekPage =
     \<lparr>pageTitle = shinjukuPiccadilly @ openParen @ shinjukuKu @ closeParen,
      movieSections =
        [\<lparr>heading = ''PERFECT DAYS'',
          cells = [\<lparr>dataDate = ''20260117'', spans = [eighteenOhFive, ''11:00'']\<rparr>]\<rparr>]\<rparr>"

text \<open>The database after the first run over that page.\<close>

definition afterFirstRun :: State where
  "afterFirstRun =
     \<lparr>movies = [zeroMovie\<lparr>TitleJP := ''PERFECT DAYS'', Status := ''incoming'', ID := 1\<rparr>],
      schedules =
        [\<lparr>Schedule_ID = 1, MovieID = 1, CinemaID = 1, PlayDate = midnightUTC 20470,
          StartTime = ''18:05''\<rparr>,
         \<lparr>Schedule_ID = 2, MovieID = 1, CinemaID = 1, PlayDate = midnightUTC 20470,
          StartTime = ''11:00''\<rparr>],
      cinemas = [piccadilly],
      requests = [TmdbSearch ''PERFECT DAYS'']\<rparr>"

text \<open>A section whose only cell has a \<^verbatim>\<open>data-date\<close> of four bytes.\<close>

definition noDates :: MovieSection where
  "noDates = \<lparr>heading = ''PERFECT DAYS'', cells = [\<lparr>dataDate = ''2026'', spans = [''11:00'']\<rparr>]\<rparr>"

section \<open>Definitions for the proofs\<close>

subsection \<open>Status derivation\<close>

text \<open>
  The status that the full-batch pass computes for a movie from the schedule rows of
  its key. And, following the specification's words, the status derived from the days
  \<open>S\<close> of a movie's schedules and the day \<open>T\<close> of today, the cases in the order of the
  pass.
\<close>

definition statusOf :: "Time \<Rightarrow> State \<Rightarrow> Movie \<Rightarrow> string" where
  "statusOf today st movie =
     batchStatus today (map PlayDate (filter (\<lambda>s. MovieID s = ID movie) (schedules st)))"

definition deriveStatus :: "int list \<Rightarrow> int \<Rightarrow> string" where
  "deriveStatus S T =
     (if S = [] then ''unplanned''
      else if Max (set S) < T then ''unplanned''
      else if \<exists>d\<in>set S. d \<le> T then ''showing''
      else if Min (set S) \<le> T + 7 then ''incoming''
      else ''future'')"

subsection \<open>Strings\<close>

text \<open>
  The fullwidth tilde in UTF-8, and the part of a string before its first space or
  fullwidth tilde, read off the bytes: what \<^verbatim>\<open>text[:idx]\<close> is after
  \<^verbatim>\<open>strings.IndexAny(text, ...)\<close>, or the whole string when \<^verbatim>\<open>idx\<close> is \<open>-1\<close>.
\<close>

definition tilde :: string where
  "tilde = [CHR 0xEF, CHR 0xBD, CHR 0x9E]"

fun beforeSep :: "string \<Rightarrow> string" where
  "beforeSep [] = []"
| "beforeSep (c # cs) =
     (if c = CHR '' '' \<or> HasPrefix (c # cs) tilde then [] else c # beforeSep cs)"

definition isSep :: "string \<Rightarrow> bool" where
  "isSep s = ((s \<noteq> [] \<and> s ! 0 = CHR '' '') \<or> HasPrefix s tilde)"

text \<open>\<^verbatim>\<open>utf8.RuneCountInString\<close>: the number of characters of a string.\<close>

definition RuneCountInString :: "string \<Rightarrow> nat" where
  "RuneCountInString s = length (rangeLoop 0 s)"

text \<open>
  Following the specification's words, the raw name with its trailing annotation in
  fullwidth parentheses removed: a name that ends with the right parenthesis loses what
  starts at its last left parenthesis, any other name stays.
\<close>

fun beforeLastOpen :: "string \<Rightarrow> string option" where
  "beforeLastOpen [] = None"
| "beforeLastOpen (c # cs) =
     (case beforeLastOpen cs of
        Some p \<Rightarrow> Some (c # p)
      | None \<Rightarrow> if HasPrefix (c # cs) openParen then Some [] else None)"

definition HasSuffix :: "string \<Rightarrow> string \<Rightarrow> bool" where
  "HasSuffix s p = (length p \<le> length s \<and> drop (length s - length p) s = p)"

definition specStripTrailing :: "string \<Rightarrow> string" where
  "specStripTrailing raw =
     (if HasSuffix raw closeParen
      then (case beforeLastOpen raw of Some p \<Rightarrow> p | None \<Rightarrow> raw)
      else raw)"

text \<open>
  Following the words of the amended sentence, the raw name with every group in
  fullwidth parentheses taken out, read off the bytes. \<open>closeAt\<close> is the number of bytes
  up to and with the nearest right parenthesis when no line feed comes before it;
  \<open>groupAt\<close> is the length of the group that starts at the head of a string;
  \<open>stripGroups\<close> skips each group it comes to and keeps every other byte.
\<close>

fun closeAt :: "string \<Rightarrow> nat option" where
  "closeAt [] = None"
| "closeAt (c # cs) =
     (if HasPrefix (c # cs) closeParen then Some 3
      else if c = CHR 0x0A then None
      else map_option Suc (closeAt cs))"

definition groupAt :: "string \<Rightarrow> nat option" where
  "groupAt s = (if HasPrefix s openParen then map_option (\<lambda>n. 3 + n) (closeAt (drop 3 s)) else None)"

lemma groupAt_pos: "groupAt s = Some n \<Longrightarrow> 0 < n"
  by (auto simp: groupAt_def split: if_splits)

function stripGroups :: "string \<Rightarrow> string" where
  "stripGroups [] = []"
| "stripGroups (c # cs) =
     (case groupAt (c # cs) of
        Some n \<Rightarrow> stripGroups (drop n (c # cs))
      | None \<Rightarrow> c # stripGroups cs)"
  by pat_completeness auto
termination
proof (relation "measure length")
  show "wf (measure length)" by simp
next
  fix c :: char and cs :: string and n :: nat
  assume "groupAt (c # cs) = Some n"
  then have "0 < n" by (rule groupAt_pos)
  then show "(drop n (c # cs), c # cs) \<in> measure length" by (cases n) auto
qed simp

declare stripGroups.simps [simp del]

subsection \<open>Enrichment\<close>

text \<open>The fields that no response of TMDB is written to.\<close>

definition fixedPart :: "Movie \<Rightarrow> nat \<times> string \<times> int \<times> string \<times> real \<times> real" where
  "fixedPart m = (ID m, Status m, TMDBID m, IMDBID m, IMDBRating m, DoubanRating m)"

text \<open>
  The IMDb ID that the loop over the languages captures: the first one that is not
  empty, of the Chinese and then the English response.
\<close>

definition capturedImdbID :: "Env \<Rightarrow> int \<Rightarrow> string" where
  "capturedImdbID env k =
     (let zh = (case tmdbMovie env k ''zh-CN'' of None \<Rightarrow> [] | Some data \<Rightarrow> d_ImdbID data)
      in if zh \<noteq> [] then zh
         else (case tmdbMovie env k ''en-US'' of None \<Rightarrow> [] | Some data \<Rightarrow> d_ImdbID data))"

text \<open>A year as \<^verbatim>\<open>time.Parse\<close> can read it.\<close>

definition fourDigits :: "string \<Rightarrow> bool" where
  "fourDigits ys = (length ys = 4 \<and> list_all isDigit ys)"

text \<open>The detail of a language carries no release date that \<^verbatim>\<open>time.Parse\<close> accepts.\<close>

definition noDateFrom :: "Env \<Rightarrow> int \<Rightarrow> string \<Rightarrow> bool" where
  "noDateFrom env k lang =
     (case tmdbMovie env k lang of
        None \<Rightarrow> True
      | Some data \<Rightarrow> ParseDash (d_ReleaseDate data) = None)"

subsection \<open>Ingestion\<close>

text \<open>
  Of the table of the movies, what the ingestion finds a movie by: the key and the
  Japanese title of each row. The keys of a table are distinct.
\<close>

definition movieKeys :: "State \<Rightarrow> (nat \<times> string) list" where
  "movieKeys st = map (\<lambda>r. (ID r, TitleJP r)) (movies st)"

definition validKeys :: "State \<Rightarrow> bool" where
  "validKeys st = distinct (map ID (movies st))"

definition keyOf :: "string \<Rightarrow> State \<Rightarrow> nat option" where
  "keyOf titleJP st = map_option ID (firstMovieByTitleJP titleJP st)"

text \<open>
  Between two states: rows were added at most, at the end of the tables of the movies
  and of the schedules; and no row was added.
\<close>

definition grows :: "State \<Rightarrow> State \<Rightarrow> bool" where
  "grows a b = (prefix (movieKeys a) (movieKeys b) \<and> prefix (schedules a) (schedules b)
                \<and> cinemas b = cinemas a)"

definition sameRows :: "State \<Rightarrow> State \<Rightarrow> bool" where
  "sameRows a b = (movieKeys b = movieKeys a \<and> schedules b = schedules a
                   \<and> cinemas b = cinemas a)"

definition sameButSchedules :: "State \<Rightarrow> State \<Rightarrow> bool" where
  "sameButSchedules a b =
     (movies b = movies a \<and> cinemas b = cinemas a \<and> requests b = requests a
      \<and> prefix (schedules a) (schedules b))"

text \<open>
  The schedule rows that a span, a cell, a section and a page ask for are in the
  database.
\<close>

definition hasSlot :: "Schedule list \<Rightarrow> nat \<Rightarrow> nat \<Rightarrow> Time \<Rightarrow> string \<Rightarrow> bool" where
  "hasSlot S mid cid pd t =
     (\<exists>row\<in>set S. MovieID row = mid \<and> CinemaID row = cid \<and> PlayDate row = pd
                   \<and> StartTime row = t)"

definition spanCovered :: "Schedule list \<Rightarrow> nat \<Rightarrow> nat \<Rightarrow> Time \<Rightarrow> string \<Rightarrow> bool" where
  "spanCovered S mid cid pd spText =
     (case startTimeOf spText of None \<Rightarrow> True | Some t \<Rightarrow> hasSlot S mid cid pd t)"

definition cellCovered :: "Schedule list \<Rightarrow> nat \<Rightarrow> nat \<Rightarrow> Cell \<Rightarrow> bool" where
  "cellCovered S mid cid td =
     (case cellDate td of
        None \<Rightarrow> True
      | Some pd \<Rightarrow> \<forall>spText\<in>set (spans td). spanCovered S mid cid pd spText)"

definition sectionCovered :: "nat \<Rightarrow> State \<Rightarrow> MovieSection \<Rightarrow> bool" where
  "sectionCovered cid st sec =
     (let titleJP = TrimSpace (heading sec) in
      titleJP = [] \<or>
      (case keyOf titleJP st of
         None \<Rightarrow> False
       | Some mid \<Rightarrow> \<forall>td\<in>set (cells sec). cellCovered (schedules st) mid cid td))"

definition pageCovered :: "State \<Rightarrow> TheaterPage \<Rightarrow> bool" where
  "pageCovered st page =
     (pageTitle page = [] \<or>
      (case firstCinemaByName (normalizeName (pageTitle page)) st of
         None \<Rightarrow> True
       | Some cinema \<Rightarrow> \<forall>sec\<in>set (movieSections page). sectionCovered (Cinema_ID cinema) st sec))"

section \<open>Properties of the status derivation\<close>

subsection \<open>Facts about the scans\<close>

lemma Format_midnightUTC: "Format (midnightUTC d) = d"
  by (simp add: Format_def midnightUTC_def day_ns_def second_def)

lemma Truncate_midnightUTC: "Truncate (midnightUTC d) = midnightUTC d"
  by (simp add: Truncate_def midnightUTC_def)

lemma Before_midnightUTC: "Before (midnightUTC a) (midnightUTC b) = (a < b)"
  by (simp add: Before_def midnightUTC_def day_ns_def second_def)

lemma After_midnightUTC: "After (midnightUTC a) (midnightUTC b) = (b < a)"
  by (simp add: After_def midnightUTC_def day_ns_def second_def)

lemma scanStep_has: "hasPastOrToday (scanStep T s p) = (hasPastOrToday s \<or> Format p \<le> T)"
  by (auto simp: scanStep_def Let_def split: option.splits)

lemma scanStep_earliest:
  "earliestDate (scanStep T s p) =
     (case earliestDate s of None \<Rightarrow> Some p | Some e \<Rightarrow> if Before p e then Some p else Some e)"
  by (auto simp: scanStep_def Let_def split: option.splits)

lemma scanStep_latest:
  "latestDate (scanStep T s p) =
     (case latestDate s of None \<Rightarrow> Some p | Some l \<Rightarrow> if After p l then Some p else Some l)"
  by (auto simp: scanStep_def Let_def split: option.splits)

lemma scan_has:
  "hasPastOrToday (foldl (scanStep T) s (map midnightUTC ds))
     = (hasPastOrToday s \<or> (\<exists>d\<in>set ds. d \<le> T))"
  by (induction ds arbitrary: s) (auto simp: scanStep_has Format_midnightUTC)

lemma Min_insert_min:
  "finite S \<Longrightarrow> Min (insert (min a d) S) = Min (insert (a::int) (insert d S))"
  by (cases "S = {}") (simp_all add: min.assoc)

lemma Max_insert_max:
  "finite S \<Longrightarrow> Max (insert (max a d) S) = Max (insert (a::int) (insert d S))"
  by (cases "S = {}") (simp_all add: max.assoc)

lemma scan_earliest_Some:
  "earliestDate s = Some (midnightUTC a) \<Longrightarrow>
   earliestDate (foldl (scanStep T) s (map midnightUTC ds))
     = Some (midnightUTC (Min (insert a (set ds))))"
proof (induction ds arbitrary: s a)
  case Nil
  then show ?case by simp
next
  case (Cons d ds)
  have "earliestDate (scanStep T s (midnightUTC d)) = Some (midnightUTC (min a d))"
    using Cons.prems by (simp add: scanStep_earliest Before_midnightUTC min_def)
  from Cons.IH[OF this] show ?case
    by (simp add: Min_insert_min[OF finite_set] del: Min_insert)
qed

lemma scan_earliest:
  assumes "ds \<noteq> []"
  shows "earliestDate (foldl (scanStep T) scanInit (map midnightUTC ds))
           = Some (midnightUTC (Min (set ds)))"
proof -
  from assms obtain d ds' where ds: "ds = d # ds'" by (cases ds) auto
  have "earliestDate (scanStep T scanInit (midnightUTC d)) = Some (midnightUTC d)"
    by (simp add: scanStep_earliest scanInit_def)
  from scan_earliest_Some[OF this] show ?thesis by (simp add: ds)
qed

lemma scan_latest_Some:
  "latestDate s = Some (midnightUTC a) \<Longrightarrow>
   latestDate (foldl (scanStep T) s (map midnightUTC ds))
     = Some (midnightUTC (Max (insert a (set ds))))"
proof (induction ds arbitrary: s a)
  case Nil
  then show ?case by simp
next
  case (Cons d ds)
  have "latestDate (scanStep T s (midnightUTC d)) = Some (midnightUTC (max a d))"
    using Cons.prems by (simp add: scanStep_latest After_midnightUTC max_def)
  from Cons.IH[OF this] show ?case
    by (simp add: Max_insert_max[OF finite_set] del: Max_insert)
qed

lemma scan_latest:
  assumes "ds \<noteq> []"
  shows "latestDate (foldl (scanStep T) scanInit (map midnightUTC ds))
           = Some (midnightUTC (Max (set ds)))"
proof -
  from assms obtain d ds' where ds: "ds = d # ds'" by (cases ds) auto
  have "latestDate (scanStep T scanInit (midnightUTC d)) = Some (midnightUTC d)"
    by (simp add: scanStep_latest scanInit_def)
  from scan_latest_Some[OF this] show ?thesis by (simp add: ds)
qed

text \<open>
  When the run's local calendar date is also its UTC calendar date (any time of day in
  UTC; in Japan from 09:00 on), the full-batch status is the rule of the specification,
  stated on the days \<open>ds\<close> of the schedule rows and the local date \<open>Format today\<close>.
\<close>

lemma batchStatus_aligned:
  assumes al: "Format today = ns today div day_ns"
  shows "batchStatus today (map midnightUTC ds) =
    (if ds = [] then ''unplanned''
     else if Max (set ds) < Format today then ''unplanned''
     else if \<exists>d\<in>set ds. d \<le> Format today then ''showing''
     else if Min (set ds) \<le> Format today + 7 then ''incoming''
     else ''future'')"
proof (cases "ds = []")
  case True
  then show ?thesis by (simp add: batchStatus_def)
next
  case False
  define T where "T = Format today"
  define e where "e = Min (set ds)"
  have T: "T = ns today div day_ns" using al T_def by simp
  have cmp: "\<And>k. (e * day_ns \<le> ns today + k * day_ns) = (e \<le> T + k)"
    unfolding T day_ns_def second_def by (auto simp: algebra_simps)
  have M: "Format today = T" by (simp add: T_def)
  have e1: "earliestDate (foldl (scanStep T) scanInit (map midnightUTC ds)) = Some (midnightUTC e)"
    using scan_earliest[OF False] e_def by simp
  have l1: "latestDate (foldl (scanStep T) scanInit (map midnightUTC ds))
              = Some (midnightUTC (Max (set ds)))"
    using scan_latest[OF False] by simp
  have h1: "hasPastOrToday (foldl (scanStep T) scanInit (map midnightUTC ds))
              = (\<exists>d\<in>set ds. d \<le> T)"
    by (simp add: scan_has scanInit_def)
  have ex: "(\<exists>d\<in>set ds. d \<le> T) = (e \<le> T)"
    unfolding e_def using False by (auto simp: Min_le_iff)
  show ?thesis
    using False
    apply (simp add: batchStatus_def Let_def M e1 l1 h1 Format_midnightUTC
        Truncate_midnightUTC ex e_def[symmetric])
    apply (simp add: Before_def After_def Equal_def AddDate_def midnightUTC_def)
    using cmp[of 7] cmp[of 1]
    apply auto
    done
qed

text \<open>
  The pass writes to each movie the status of its schedule rows, as they are when the
  pass starts; with the local date on the UTC date and play dates that are UTC
  midnights, that is the status of the rule.
\<close>

lemma movieStatusStep_row:
  assumes "distinct (map ID (movies st))" and "movie \<in> set (movies st)"
  shows "movies (movieStatusStep today st movie)
           = map (\<lambda>r. if r = movie then r\<lparr>Status := statusOf today st movie\<rparr> else r) (movies st)"
    and "schedules (movieStatusStep today st movie) = schedules st"
proof -
  have eq: "(ID r = ID movie) = (r = movie)" if "r \<in> set (movies st)" for r
    using assms that by (meson distinct_map inj_on_def)
  have "map (\<lambda>r. if ID r = ID movie then r\<lparr>Status := s\<rparr> else r) (movies st)
          = map (\<lambda>r. if r = movie then r\<lparr>Status := s\<rparr> else r) (movies st)" for s
    by (rule map_cong) (simp_all add: eq)
  moreover have "map (\<lambda>r. if r = movie then r\<lparr>Status := Status movie\<rparr> else r) (movies st)
                   = movies st"
    by (induction "movies st") (auto simp: map_idI)
  ultimately have a: "map (\<lambda>r. if ID r = ID movie then r\<lparr>Status := s\<rparr> else r) (movies st)
          = map (\<lambda>r. if r = movie then r\<lparr>Status := s\<rparr> else r) (movies st)"
    and b: "map (\<lambda>r. if r = movie then r\<lparr>Status := Status movie\<rparr> else r) (movies st)
                   = movies st" for s
    by simp_all
  show "movies (movieStatusStep today st movie)
           = map (\<lambda>r. if r = movie then r\<lparr>Status := statusOf today st movie\<rparr> else r) (movies st)"
  proof (cases "Status movie = statusOf today st movie")
    case True
    then have "movieStatusStep today st movie = st"
      by (simp add: movieStatusStep_def Let_def statusOf_def)
    moreover from b have "map (\<lambda>r. if r = movie then r\<lparr>Status := statusOf today st movie\<rparr> else r)
        (movies st) = movies st"
      unfolding True .
    ultimately show ?thesis by simp
  next
    case False
    then have "movieStatusStep today st movie = updateStatus (ID movie) (statusOf today st movie) st"
      by (simp add: movieStatusStep_def Let_def statusOf_def)
    with a show ?thesis by (simp add: updateStatus_def)
  qed
  show "schedules (movieStatusStep today st movie) = schedules st"
    by (simp add: movieStatusStep_def Let_def updateStatus_def)
qed

lemma statusLoop:
  assumes "distinct (map ID (movies st))" and "set ms \<subseteq> set (movies st)" and "distinct (map ID ms)"
  shows "movies (foldl (movieStatusStep today) st ms)
           = map (\<lambda>r. if r \<in> set ms then r\<lparr>Status := statusOf today st r\<rparr> else r) (movies st)"
  using assms
proof (induction ms arbitrary: st)
  case Nil
  then show ?case by (simp add: map_idI)
next
  case (Cons m ms)
  let ?st' = "movieStatusStep today st m"
  from Cons.prems have mem: "m \<in> set (movies st)" by simp
  note row = movieStatusStep_row[OF Cons.prems(1) mem, of today]
  have ids: "map ID (movies ?st') = map ID (movies st)"
    by (simp add: row(1) comp_def if_distrib cong: if_cong)
  have d': "distinct (map ID (movies ?st'))" using Cons.prems(1) by (simp add: ids)
  have notm: "x \<noteq> m" if "x \<in> set ms" for x
    using Cons.prems(3) that by auto
  have sub': "set ms \<subseteq> set (movies ?st')"
  proof
    fix x assume x: "x \<in> set ms"
    with Cons.prems(2) have "x \<in> set (movies st)" by auto
    moreover have "x \<noteq> m" using x by (rule notm)
    ultimately have "x \<in> (\<lambda>r. if r = m then r\<lparr>Status := statusOf today st m\<rparr> else r) ` set (movies st)"
      by (intro image_eqI[where x = x]) simp_all
    then show "x \<in> set (movies ?st')"
      unfolding row(1) by simp
  qed
  from Cons.prems(3) have d3: "distinct (map ID ms)" by simp
  have so: "statusOf today ?st' r = statusOf today st r" for r
    by (simp add: statusOf_def row(2))
  have idm: "ID m \<notin> ID ` set ms" using Cons.prems(3) by simp
  have pt: "(let r' = (if r = m then r\<lparr>Status := statusOf today st m\<rparr> else r)
             in if r' \<in> set ms then r'\<lparr>Status := statusOf today st r'\<rparr> else r')
            = (if r \<in> set (m # ms) then r\<lparr>Status := statusOf today st r\<rparr> else r)" for r
  proof (cases "r = m")
    case True
    have "m\<lparr>Status := statusOf today st m\<rparr> \<notin> set ms"
    proof
      assume "m\<lparr>Status := statusOf today st m\<rparr> \<in> set ms"
      then have "ID (m\<lparr>Status := statusOf today st m\<rparr>) \<in> ID ` set ms" by (rule imageI)
      with idm show False by simp
    qed
    with True show ?thesis by (simp add: Let_def)
  next
    case False
    then show ?thesis by (simp add: Let_def)
  qed
  have "movies (foldl (movieStatusStep today) st (m # ms))
          = map (\<lambda>r. if r \<in> set ms then r\<lparr>Status := statusOf today st r\<rparr> else r) (movies ?st')"
    using Cons.IH[OF d' sub' d3] by (simp add: so)
  also have "\<dots> = map (\<lambda>r. let r' = (if r = m then r\<lparr>Status := statusOf today st m\<rparr> else r)
             in if r' \<in> set ms then r'\<lparr>Status := statusOf today st r'\<rparr> else r') (movies st)"
    unfolding row(1) map_map comp_def Let_def ..
  also have "\<dots> = map (\<lambda>r. if r \<in> set (m # ms) then r\<lparr>Status := statusOf today st r\<rparr> else r) (movies st)"
    by (simp only: pt)
  finally show ?case .
qed

lemma updateMovieStatusFromSchedules_rows:
  assumes "distinct (map ID (movies st))"
  shows "movies (updateMovieStatusFromSchedules today st)
           = map (\<lambda>r. r\<lparr>Status := statusOf today st r\<rparr>) (movies st)"
proof -
  have "movies (updateMovieStatusFromSchedules today st)
          = map (\<lambda>r. if r \<in> set (movies st) then r\<lparr>Status := statusOf today st r\<rparr> else r) (movies st)"
    unfolding updateMovieStatusFromSchedules_def
    by (rule statusLoop[OF assms _ assms]) simp
  also have "\<dots> = map (\<lambda>r. r\<lparr>Status := statusOf today st r\<rparr>) (movies st)"
    by (rule map_cong) simp_all
  finally show ?thesis .
qed

lemma batch_pass_aligned:
  assumes "distinct (map ID (movies st))"
    and "Format today = ns today div day_ns"
    and "\<forall>s\<in>set (schedules st). PlayDate s = midnightUTC (Format (PlayDate s))"
  shows "movies (updateMovieStatusFromSchedules today st)
           = map (\<lambda>r. r\<lparr>Status := deriveStatus
                                      (map (\<lambda>s. Format (PlayDate s))
                                         (filter (\<lambda>s. MovieID s = ID r) (schedules st)))
                                      (Format today)\<rparr>) (movies st)"
proof -
  have "statusOf today st r
          = deriveStatus (map (\<lambda>s. Format (PlayDate s))
                            (filter (\<lambda>s. MovieID s = ID r) (schedules st))) (Format today)" for r
  proof -
    let ?rows = "filter (\<lambda>s. MovieID s = ID r) (schedules st)"
    have "map PlayDate ?rows = map midnightUTC (map (\<lambda>s. Format (PlayDate s)) ?rows)"
      using assms(3) by (simp add: map_eq_conv)
    then show ?thesis
      unfolding statusOf_def deriveStatus_def
      by (simp only: batchStatus_aligned[OF assms(2)])
  qed
  then show ?thesis
    by (simp add: updateMovieStatusFromSchedules_rows[OF assms(1)])
qed

lemma Date_2026_01_17: "Date 2026 1 17 = midnightUTC 20470"
  by (simp add: Date_def civilDay_def daysBefore_def isLeap_def)

text \<open>
  C1. The specification's full-batch rule makes a movie whose earliest schedule is
  exactly seven days after today's date \<open>incoming\<close>. At 08:00 Japan Standard Time on
  2026-01-10 (day 20463), for a movie with the single play date 2026-01-17 (day 20470,
  stored as midnight UTC), today's date is 20463, the play date is today's date plus
  seven, and \<^verbatim>\<open>updateMovieStatusFromSchedules\<close> sets the status \<open>future\<close>:
  \<^verbatim>\<open>sevenDaysLater\<close> is 2026-01-16 23:00 UTC, an hour before the play date's instant.
\<close>

theorem C1_batch_boundary_in_JST:
  "Format morningInTokyo = 20463
   \<and> map (Format \<circ> PlayDate) (schedules oneShow) = [20463 + 7]
   \<and> map Status (movies (updateMovieStatusFromSchedules morningInTokyo oneShow)) = [''future'']"
  by (simp add: updateMovieStatusFromSchedules_def movieStatusStep_def updateStatus_def
      oneShow_def emptyState_def perfectDays_def zeroMovie_def morningInTokyo_def
      Date_2026_01_17 batchStatus_def scanStep_def scanInit_def Let_def Format_def wallClock_def
      midnightUTC_def Truncate_def AddDate_def Before_def After_def Equal_def
      day_ns_def second_def)

subsection \<open>The incremental form\<close>

lemma incStep_has: "incHasPastOrToday (incStep T s d) = (incHasPastOrToday s \<or> d \<le> T)"
  by (auto simp: incStep_def Let_def split: option.splits)

lemma incStep_earliest:
  "incEarliest (incStep T s d) =
     (case incEarliest s of
        None \<Rightarrow> Some (midnightUTC d)
      | Some e \<Rightarrow> if Before (midnightUTC d) e then Some (midnightUTC d) else Some e)"
  by (auto simp: incStep_def Let_def split: option.splits)

lemma incScan_has:
  "incHasPastOrToday (foldl (incStep T) s ds) = (incHasPastOrToday s \<or> (\<exists>d\<in>set ds. d \<le> T))"
  by (induction ds arbitrary: s) (auto simp: incStep_has)

lemma incScan_earliest_Some:
  "incEarliest s = Some (midnightUTC a) \<Longrightarrow>
   incEarliest (foldl (incStep T) s ds) = Some (midnightUTC (Min (insert a (set ds))))"
proof (induction ds arbitrary: s a)
  case Nil
  then show ?case by simp
next
  case (Cons d ds)
  have "incEarliest (incStep T s d) = Some (midnightUTC (min a d))"
    using Cons.prems by (simp add: incStep_earliest Before_midnightUTC min_def)
  from Cons.IH[OF this] show ?case
    by (simp add: Min_insert_min[OF finite_set] del: Min_insert)
qed

lemma incScan_earliest:
  assumes "ds \<noteq> []"
  shows "incEarliest (foldl (incStep T) \<lparr>incEarliest = None, incHasPastOrToday = False\<rparr> ds)
           = Some (midnightUTC (Min (set ds)))"
proof -
  from assms obtain d ds' where ds: "ds = d # ds'" by (cases ds) auto
  have "incEarliest (incStep T \<lparr>incEarliest = None, incHasPastOrToday = False\<rparr> d)
          = Some (midnightUTC d)"
    by (simp add: incStep_earliest)
  from incScan_earliest_Some[OF this] show ?thesis by (simp add: ds)
qed

text \<open>The incremental status in terms of the dates, for a set of dates that is not empty.\<close>

lemma ns_midnightUTC: "ns (midnightUTC d) = d * day_ns"
  by (simp add: midnightUTC_def)

lemma incrementalStatus_eq:
  assumes "ds \<noteq> []"
  shows "incrementalStatus today ds =
     (if \<exists>d\<in>set ds. d \<le> Format today then ''showing''
      else if Format (AddDate today 1) \<le> Min (set ds)
              \<and> Min (set ds) * day_ns \<le> ns today + 7 * day_ns then ''incoming''
      else ''showing'')"
proof -
  have le: "(Before (midnightUTC e) (AddDate today 7) \<or> Equal (midnightUTC e) (AddDate today 7))
              = (e * day_ns \<le> ns today + 7 * day_ns)" for e
    by (auto simp: Before_def Equal_def AddDate_def ns_midnightUTC)
  show ?thesis
    using assms
    by (simp add: incrementalStatus_def Let_def incScan_earliest incScan_has Format_midnightUTC le)
qed

lemma incrementalStatus_range:
  "incrementalStatus today ds = ''showing'' \<or> incrementalStatus today ds = ''incoming''"
  by (simp add: incrementalStatus_def Let_def split: option.splits)

lemma incrementalStatus_past:
  "\<exists>d\<in>set ds. d \<le> Format today \<Longrightarrow> incrementalStatus today ds = ''showing''"
  by (cases "ds = []") (auto simp: incrementalStatus_eq)

lemma Format_AddDate: "Format (AddDate t n) = Format t + n"
  by (simp add: Format_def AddDate_def day_ns_def second_def algebra_simps)

lemma incrementalStatus_aligned:
  assumes al: "Format today = ns today div day_ns" and ne: "ds \<noteq> []"
  shows "incrementalStatus today ds =
    (if \<exists>d\<in>set ds. d \<le> Format today then ''showing''
     else if Min (set ds) \<le> Format today + 7 then ''incoming''
     else ''showing'')"
proof -
  define T where "T = Format today"
  define e where "e = Min (set ds)"
  have T: "T = ns today div day_ns" using al T_def by simp
  have cmp: "(e * day_ns \<le> ns today + 7 * day_ns) = (e \<le> T + 7)"
    unfolding T day_ns_def second_def by (auto simp: algebra_simps)
  have ex: "(\<exists>d\<in>set ds. d \<le> T) = (e \<le> T)"
    unfolding e_def using ne by (auto simp: Min_le_iff)
  show ?thesis
    using cmp
    by (simp add: incrementalStatus_eq[OF ne] Format_AddDate T_def[symmetric] e_def[symmetric] ex)
qed

text \<open>
  C3. The incremental rule of the specification makes a section whose earliest date is
  exactly seven days after today's date \<open>incoming\<close>. At 08:00 Japan Standard Time on
  the day 20463, for the single date 20463 + 7, step 3 of the section computes
  \<open>showing\<close>: \<^verbatim>\<open>earliestDate.Before(sevenDaysLater) || earliestDate.Equal(sevenDaysLater)\<close>
  compares the midnight UTC of the date with 23:00 UTC of the day before.
\<close>

theorem C3_incremental_boundary_in_JST:
  "Format morningInTokyo = 20463
   \<and> incrementalStatus morningInTokyo [20463 + 7] = ''showing''"
  by (simp add: incrementalStatus_def incStep_def Let_def Format_def wallClock_def
      morningInTokyo_def midnightUTC_def AddDate_def Before_def Equal_def day_ns_def second_def)

section \<open>Properties of the string functions\<close>

subsection \<open>Decoded runes\<close>

lemma mod_range:
  fixes x :: nat
  assumes "k * n \<le> x" "x < k * n + n"
  shows "x mod n = x - k * n"
proof -
  from assms(1) obtain r where r: "x = k * n + r" using le_Suc_ex by blast
  with assms(2) have "r < n" by simp
  then show ?thesis by (simp add: r)
qed

lemma mod64_low:
  fixes q r :: nat
  assumes "r < 64"
  shows "(64 * q + r) mod 64 = r"
  using assms by simp

lemma radix3:
  fixes X Y Z :: nat
  assumes "X * 4096 + Y * 64 + Z = 65374" "Y < 64" "Z < 64"
  shows "X = 15 \<and> Y = 61 \<and> Z = 30"
proof -
  have e: "64 * (X * 64 + Y) + Z = 65374" using assms(1) by simp
  have "Z = (64 * (X * 64 + Y) + Z) mod 64" by (rule mod64_low[OF assms(3), symmetric])
  also have "\<dots> = 30" by (simp only: e) simp
  finally have Z: "Z = 30" .
  with e have e2: "64 * X + Y = 1021" by simp
  have "Y = (64 * X + Y) mod 64" by (rule mod64_low[OF assms(2), symmetric])
  also have "\<dots> = 61" by (simp only: e2) simp
  finally have Y: "Y = 61" .
  with e2 have "X = 15" by simp
  with Y Z show ?thesis by simp
qed

lemma cont_mod: "cont c \<Longrightarrow> byte c mod 64 = byte c - 128"
  using mod_range[of 2 64 "byte c"] by (simp add: cont_def)

text \<open>A rune of more than one byte is not ASCII: below 0x80 the rune is the first byte.\<close>

lemma decode_small:
  assumes "fst (DecodeRuneInString s) < 0x80"
  shows "s \<noteq> [] \<and> byte (s ! 0) = fst (DecodeRuneInString s) \<and> snd (DecodeRuneInString s) = 1"
proof (cases s rule: decode_cases)
  case empty
  with assms show ?thesis by (simp add: RuneError_def)
next
  case ascii
  then show ?thesis by simp
next
  case invalid
  with assms show ?thesis by (simp add: RuneError_def)
next
  case two
  have "byte (s ! 0) mod 32 = byte (s ! 0) - 192"
    using mod_range[of 6 32 "byte (s ! 0)"] two(2,3) by simp
  with two(2) have "2 \<le> byte (s ! 0) mod 32" by simp
  then have "128 \<le> (byte (s ! 0) mod 32) * 64" by simp
  with assms two(5) show ?thesis by simp
next
  case three
  have m: "byte (s ! 0) mod 16 = byte (s ! 0) - 224"
    using mod_range[of 14 16 "byte (s ! 0)"] three(2,3) by simp
  have "128 \<le> (byte (s ! 0) mod 16) * 4096 + (byte (s ! 1) mod 64) * 64"
  proof (cases "byte (s ! 0) = 0xE0")
    case True
    then have "0xA0 \<le> byte (s ! 1)" using three(4) by (simp add: acceptLo_def)
    then have "32 \<le> byte (s ! 1) mod 64" using cont_mod[OF three(5)] by simp
    then have "128 \<le> (byte (s ! 1) mod 64) * 64" by simp
    then show ?thesis by simp
  next
    case False
    with three(2) m have "1 \<le> byte (s ! 0) mod 16" by simp
    then have "128 \<le> (byte (s ! 0) mod 16) * 4096" by simp
    then show ?thesis by simp
  qed
  with assms three(7) show ?thesis by simp
next
  case four
  have m: "byte (s ! 0) mod 8 = byte (s ! 0) - 240"
    using mod_range[of 30 8 "byte (s ! 0)"] four(2,3) by simp
  have "128 \<le> (byte (s ! 0) mod 8) * 262144 + (byte (s ! 1) mod 64) * 4096"
  proof (cases "byte (s ! 0) = 0xF0")
    case True
    then have "0x90 \<le> byte (s ! 1)" using four(4) by (simp add: acceptLo_def)
    then have "16 \<le> byte (s ! 1) mod 64" using cont_mod[OF four(5)] by simp
    then have "128 \<le> (byte (s ! 1) mod 64) * 4096" by simp
    then show ?thesis by simp
  next
    case False
    with four(2) m have "1 \<le> byte (s ! 0) mod 8" by simp
    then have "128 \<le> (byte (s ! 0) mod 8) * 262144" by simp
    then show ?thesis by simp
  qed
  with assms four(8) show ?thesis by simp
qed

lemma byte_inj: "byte c = byte d \<Longrightarrow> c = d"
  by (simp add: byte_def)

lemma HasPrefix3:
  "HasPrefix s [a, b, c] = (3 \<le> length s \<and> s ! 0 = a \<and> s ! 1 = b \<and> s ! 2 = c)"
proof (cases s)
  case Nil
  then show ?thesis by (simp add: HasPrefix_def)
next
  case (Cons x xs)
  note s1 = this
  show ?thesis
  proof (cases xs)
    case Nil
    with s1 show ?thesis by (simp add: HasPrefix_def)
  next
    case (Cons y ys)
    note s2 = this
    show ?thesis
    proof (cases ys)
      case Nil
      with s1 s2 show ?thesis by (simp add: HasPrefix_def)
    next
      case (Cons z zs)
      with s1 s2 show ?thesis by (auto simp: HasPrefix_def)
    qed
  qed
qed

lemma decode_tilde: "(fst (DecodeRuneInString s) = 0xFF5E) = HasPrefix s tilde"
proof
  assume "HasPrefix s tilde"
  then have "3 \<le> length s" "s ! 0 = CHR 0xEF" "s ! 1 = CHR 0xBD" "s ! 2 = CHR 0x9E"
    by (simp_all add: tilde_def HasPrefix3)
  then show "fst (DecodeRuneInString s) = 0xFF5E"
    by (auto simp: DecodeRuneInString_def seqSize_def acceptLo_def acceptHi_def byte_def)
next
  assume r: "fst (DecodeRuneInString s) = 0xFF5E"
  show "HasPrefix s tilde"
  proof (cases s rule: decode_cases)
    case empty
    with r show ?thesis by (simp add: RuneError_def)
  next
    case ascii
    with r show ?thesis by simp
  next
    case invalid
    with r show ?thesis by (simp add: RuneError_def)
  next
    case two
    have "byte (s ! 0) mod 32 < 32" "byte (s ! 1) mod 64 < 64" by simp_all
    then have "(byte (s ! 0) mod 32) * 64 + byte (s ! 1) mod 64 < 2048" by simp
    with r two(5) show ?thesis by simp
  next
    case three
    have d: "byte (s ! 0) mod 16 = 15 \<and> byte (s ! 1) mod 64 = 61 \<and> byte (s ! 2) mod 64 = 30"
      by (rule radix3) (use r three(7) in simp_all)
    have "byte (s ! 0) mod 16 = byte (s ! 0) - 224"
      using mod_range[of 14 16 "byte (s ! 0)"] three(2,3) by simp
    with d have "byte (s ! 0) - 224 = 15" by simp
    with three(2) have b0: "byte (s ! 0) = 0xEF" by linarith
    from d cont_mod[OF three(5)] have "byte (s ! 1) - 128 = 61" by simp
    moreover have "128 \<le> byte (s ! 1)" using three(5) by (simp add: cont_def)
    ultimately have b1: "byte (s ! 1) = 0xBD" by linarith
    from d cont_mod[OF three(6)] have "byte (s ! 2) - 128 = 30" by simp
    moreover have "128 \<le> byte (s ! 2)" using three(6) by (simp add: cont_def)
    ultimately have b2: "byte (s ! 2) = 0x9E" by linarith
    note b0 b1 b2
    then have "s ! 0 = CHR 0xEF" "s ! 1 = CHR 0xBD" "s ! 2 = CHR 0x9E"
      by (auto intro: byte_inj simp: byte_def)
    with three(1) show ?thesis by (simp add: tilde_def HasPrefix3)
  next
    case four
    have m: "byte (s ! 0) mod 8 = byte (s ! 0) - 240"
      using mod_range[of 30 8 "byte (s ! 0)"] four(2,3) by simp
    have "65536 \<le> (byte (s ! 0) mod 8) * 262144 + (byte (s ! 1) mod 64) * 4096"
    proof (cases "byte (s ! 0) = 0xF0")
      case True
      then have "0x90 \<le> byte (s ! 1)" using four(4) by (simp add: acceptLo_def)
      then have "16 \<le> byte (s ! 1) mod 64" using cont_mod[OF four(5)] by simp
      then have "65536 \<le> (byte (s ! 1) mod 64) * 4096" by simp
      then show ?thesis by simp
    next
      case False
      with four(2) m have "1 \<le> byte (s ! 0) mod 8" by simp
      then have "65536 \<le> (byte (s ! 0) mod 8) * 262144" by simp
      then show ?thesis by simp
    qed
    with r four(8) show ?thesis by simp
  qed
qed

lemma decode_space: "(fst (DecodeRuneInString s) = 0x20) = (s \<noteq> [] \<and> s ! 0 = CHR '' '')"
proof
  assume "s \<noteq> [] \<and> s ! 0 = CHR '' ''"
  then show "fst (DecodeRuneInString s) = 0x20"
    by (simp add: DecodeRuneInString_def byte_def)
next
  assume "fst (DecodeRuneInString s) = 0x20"
  then have "s \<noteq> [] \<and> byte (s ! 0) = 0x20" using decode_small[of s] by simp
  then show "s \<noteq> [] \<and> s ! 0 = CHR '' ''"
    by (auto intro: byte_inj simp: byte_def)
qed

subsection \<open>The text before the separator\<close>

lemma rangeLoop_Nil: "rangeLoop i [] = []"
  by (simp add: rangeLoop.simps)

lemma rangeLoop_Cons:
  "rangeLoop i (c # cs) =
     (i, fst (DecodeRuneInString (c # cs)))
       # rangeLoop (i + snd (DecodeRuneInString (c # cs)))
           (drop (snd (DecodeRuneInString (c # cs))) (c # cs))"
  by (subst rangeLoop.simps) simp

lemma decode_ascii: "byte c < 0x80 \<Longrightarrow> DecodeRuneInString (c # cs) = (byte c, 1)"
  by (simp add: DecodeRuneInString_def)

lemma decode3:
  "0xE1 \<le> byte c0 \<Longrightarrow> byte c0 \<le> 0xEF \<Longrightarrow> byte c0 \<noteq> 0xED \<Longrightarrow> cont c1 \<Longrightarrow> cont c2 \<Longrightarrow>
   DecodeRuneInString (c0 # c1 # c2 # cs)
     = ((byte c0 mod 16) * 4096 + (byte c1 mod 64) * 64 + byte c2 mod 64, 3)"
  by (simp add: DecodeRuneInString_def seqSize_def acceptLo_def acceptHi_def cont_def)

lemma runes_tildeOrSpace: "set (map snd (rangeLoop 0 tildeOrSpace)) = {0xFF5E, 0x20}"
  by (simp add: tildeOrSpace_def rangeLoop_Cons rangeLoop_Nil decode3 decode_ascii byte_def cont_def)

lemma sep_rune: "(fst (DecodeRuneInString s) \<in> {0xFF5E, 0x20}) = isSep s"
  using decode_tilde[of s] decode_space[of s] by (auto simp: isSep_def)

lemma beforeSep_step: "s \<noteq> [] \<Longrightarrow> beforeSep s = (if isSep s then [] else hd s # beforeSep (tl s))"
  by (cases s) (auto simp: isSep_def)

lemma beforeSep_skip:
  "w \<le> length s \<Longrightarrow> (\<forall>j<w. \<not> isSep (drop j s)) \<Longrightarrow> beforeSep s = take w s @ beforeSep (drop w s)"
proof (induction w arbitrary: s)
  case 0
  then show ?case by simp
next
  case (Suc w)
  then obtain c cs where s: "s = c # cs" by (cases s) auto
  from Suc.prems(2) have n0: "\<not> isSep s" by (metis drop0 zero_less_Suc)
  have "\<forall>j<w. \<not> isSep (drop j cs)"
  proof (intro allI impI)
    fix j assume "j < w"
    then have "\<not> isSep (drop (Suc j) s)" using Suc.prems(2) by simp
    then show "\<not> isSep (drop j cs)" by (simp add: s)
  qed
  moreover have "w \<le> length cs" using Suc.prems(1) by (simp add: s)
  ultimately have "beforeSep cs = take w cs @ beforeSep (drop w cs)" using Suc.IH[of cs] by simp
  with n0 show ?case by (simp add: s isSep_def)
qed

lemma cont_not_sep:
  assumes "j < length s" "cont (s ! j)"
  shows "\<not> isSep (drop j s)"
proof -
  have h: "drop j s \<noteq> []" "drop j s ! 0 = s ! j" using assms(1) by simp_all
  have "s ! j \<noteq> CHR '' ''" "s ! j \<noteq> CHR 0xEF"
    using assms(2) by (auto simp: cont_def byte_def)
  then show ?thesis
    using h by (auto simp: isSep_def tilde_def HasPrefix3)
qed

lemma rune_not_sep:
  assumes "s \<noteq> []" "\<not> isSep s"
  shows "beforeSep s = take (snd (DecodeRuneInString s)) s
            @ beforeSep (drop (snd (DecodeRuneInString s)) s)"
proof (rule beforeSep_skip)
  show "snd (DecodeRuneInString s) \<le> length s" by (rule decode_size_le)
  show "\<forall>j<snd (DecodeRuneInString s). \<not> isSep (drop j s)"
  proof (intro allI impI)
    fix j assume j: "j < snd (DecodeRuneInString s)"
    show "\<not> isSep (drop j s)"
    proof (cases "j = 0")
      case True
      with assms(2) show ?thesis by simp
    next
      case False
      then have "cont (s ! j)" using j decode_cont[of j s] by simp
      moreover have "j < length s" using j decode_size_le[of s] by simp
      ultimately show ?thesis by (rule cont_not_sep[rotated])
    qed
  qed
qed

lemma find_sep:
  "(case find (\<lambda>(i, c). c \<in> {0xFF5E, 0x20}) (rangeLoop k s) of
      None \<Rightarrow> beforeSep s = s
    | Some (i, c) \<Rightarrow> k \<le> i \<and> beforeSep s = take (i - k) s)"
proof (induction k s rule: rangeLoop.induct)
  case (1 k s)
  show ?case
  proof (cases "s = []")
    case True
    then show ?thesis by (simp add: rangeLoop_Nil)
  next
    case False
    define w where "w = snd (DecodeRuneInString s)"
    have unf: "rangeLoop k s = (k, fst (DecodeRuneInString s)) # rangeLoop (k + w) (drop w s)"
      using False by (subst rangeLoop.simps) (simp add: w_def)
    show ?thesis
    proof (cases "isSep s")
      case True
      then have "fst (DecodeRuneInString s) \<in> {0xFF5E, 0x20}" by (simp only: sep_rune)
      moreover have "beforeSep s = []" using True False by (simp add: beforeSep_step)
      ultimately show ?thesis by (simp add: unf)
    next
      case ns: False
      then have nr: "fst (DecodeRuneInString s) \<notin> {0xFF5E, 0x20}" by (simp only: sep_rune) simp
      have bs: "beforeSep s = take w s @ beforeSep (drop w s)"
        unfolding w_def by (rule rune_not_sep[OF False ns])
      have wl: "w \<le> length s" unfolding w_def by (rule decode_size_le)
      have IH: "(case find (\<lambda>(i, c). c \<in> {0xFF5E, 0x20}) (rangeLoop (k + w) (drop w s)) of
                   None \<Rightarrow> beforeSep (drop w s) = drop w s
                 | Some (i, c) \<Rightarrow> k + w \<le> i \<and> beforeSep (drop w s) = take (i - (k + w)) (drop w s))"
        unfolding w_def using "1.IH"[OF False] .
      show ?thesis
      proof (cases "find (\<lambda>(i, c). c \<in> {0xFF5E, 0x20}) (rangeLoop (k + w) (drop w s))")
        case None
        with IH have "beforeSep (drop w s) = drop w s" by simp
        with bs have "beforeSep s = s" by simp
        with None nr show ?thesis by (simp add: unf)
      next
        case (Some ic)
        obtain i c where ic: "ic = (i, c)" by (cases ic)
        from IH Some ic have i: "k + w \<le> i" "beforeSep (drop w s) = take (i - (k + w)) (drop w s)"
          by simp_all
        have "take (i - k) s = take w s @ take (i - (k + w)) (drop w s)"
        proof -
          have "i - k = w + (i - (k + w))" using i(1) by simp
          then show ?thesis by (simp only: take_add)
        qed
        with bs i have "k \<le> i \<and> beforeSep s = take (i - k) s" by simp
        with Some ic nr show ?thesis by (simp add: unf)
      qed
    qed
  qed
qed

lemma IndexAny_tildeOrSpace:
  "IndexAny t tildeOrSpace =
     (case find (\<lambda>(i, c). c \<in> {0xFF5E, 0x20}) (rangeLoop 0 t) of
        None \<Rightarrow> - 1
      | Some (i, c) \<Rightarrow> int i)"
  by (simp only: IndexAny_def runes_tildeOrSpace)

lemma cut_beforeSep:
  "(let idx = IndexAny t tildeOrSpace in if idx \<noteq> - 1 then take (nat idx) t else t)
     = beforeSep t"
proof (cases "find (\<lambda>(i, c). c \<in> {0xFF5E, 0x20}) (rangeLoop 0 t)")
  case None
  with find_sep[where k=0 and s=t] show ?thesis
    by (simp add: IndexAny_tildeOrSpace)
next
  case (Some ic)
  obtain i c where ic: "ic = (i, c)" by (cases ic)
  with Some find_sep[where k=0 and s=t] show ?thesis
    by (simp add: IndexAny_tildeOrSpace)
qed

lemma Contains_single: "Contains s [c] = (c \<in> set s)"
  by (induction s) (auto simp: HasPrefix_def)

lemma startTimeOf_eq:
  "startTimeOf spText =
     (let text = beforeSep (TrimSpace spText)
      in if 4 \<le> length text \<and> CHR '':'' \<in> set text then Some text else None)"
proof (cases "TrimSpace spText = []")
  case True
  then show ?thesis by (simp add: startTimeOf_def)
next
  case False
  then show ?thesis
    using cut_beforeSep[of "TrimSpace spText"]
    by (auto simp: startTimeOf_def Let_def Contains_single)
qed

subsection \<open>The groups in fullwidth parentheses\<close>

lemma not_Contains_drop:
  "p \<noteq> [] \<Longrightarrow> \<not> Contains s p \<Longrightarrow> \<not> HasPrefix (drop i s) p"
proof (induction s arbitrary: i)
  case Nil
  then show ?case by (simp add: HasPrefix_def)
next
  case (Cons c cs)
  show ?case
  proof (cases i)
    case 0
    with Cons.prems show ?thesis by simp
  next
    case (Suc j)
    with Cons show ?thesis by simp
  qed
qed

lemma not_Contains_suffix:
  assumes "p \<noteq> []" "\<not> Contains s p"
  shows "\<not> Contains (drop i s) p"
  using assms
proof (induction s arbitrary: i)
  case Nil
  then show ?case by simp
next
  case (Cons c cs)
  show ?case
  proof (cases i)
    case 0
    with Cons.prems show ?thesis by simp
  next
    case (Suc j)
    with Cons show ?thesis by simp
  qed
qed

text \<open>
  A pattern of three bytes that starts with EF and has no EF after that does not begin
  in \<open>a\<close> and run into a text that starts with EF.
\<close>

lemma no_overlap:
  assumes "a \<noteq> []" "\<not> HasPrefix a [CHR 0xEF, p1, p2]" "r \<noteq> []" "r ! 0 = CHR 0xEF"
    "p1 \<noteq> CHR 0xEF" "p2 \<noteq> CHR 0xEF"
  shows "\<not> HasPrefix (a @ r) [CHR 0xEF, p1, p2]"
proof -
  have "0 < length a" using assms(1) by simp
  then consider "length a = 1" | "length a = 2" | "3 \<le> length a"
    by linarith
  then show ?thesis
  proof cases
    case 1
    then have "(a @ r) ! 1 = r ! 0" by (simp add: nth_append)
    with assms(4,5) show ?thesis by (simp add: HasPrefix3)
  next
    case 2
    then have "(a @ r) ! 2 = r ! 0" by (simp add: nth_append)
    with assms(4,6) show ?thesis by (simp add: HasPrefix3)
  next
    case 3
    then have "(a @ r) ! 0 = a ! 0" "(a @ r) ! 1 = a ! 1" "(a @ r) ! 2 = a ! 2"
      using assms(1) by (auto simp: nth_append)
    with 3 assms(2) show ?thesis by (simp add: HasPrefix3)
  qed
qed

text \<open>A rune that starts in \<open>a\<close> ends in \<open>a\<close> when the text goes on with a byte that
  continues no rune.\<close>

lemma rune_within:
  assumes "a \<noteq> []" "r = [] \<or> \<not> cont (r ! 0)"
  shows "snd (DecodeRuneInString (a @ r)) \<le> length a"
proof (cases "r = []")
  case True
  then show ?thesis using decode_size_le[of a] by simp
next
  case False
  with assms(2) have nc: "\<not> cont (r ! 0)" by simp
  show ?thesis
  proof (rule ccontr)
    assume "\<not> snd (DecodeRuneInString (a @ r)) \<le> length a"
    then have "length a < snd (DecodeRuneInString (a @ r))" by simp
    moreover have "0 < length a" using assms(1) by simp
    ultimately have "cont ((a @ r) ! length a)" by (rule decode_cont[rotated])
    with nc show False by (simp add: nth_append)
  qed
qed

lemma not_cont_EF: "\<not> cont (CHR 0xEF)"
  by (simp add: cont_def byte_def)

lemma removeParens_Nil: "removeParens [] = []"
  by (simp add: removeParens.simps)

lemma removeParens_keep:
  assumes "r = [] \<or> HasPrefix r openParen"
  shows "\<not> Contains a openParen \<Longrightarrow> removeParens (a @ r) = a @ removeParens r"
proof (induction a rule: length_induct)
  case (1 a)
  show ?case
  proof (cases "a = []")
    case True
    then show ?thesis by simp
  next
    case False
    have r0: "r = [] \<or> (r \<noteq> [] \<and> r ! 0 = CHR 0xEF)"
      using assms by (auto simp: openParen_def HasPrefix3)
    have na: "\<not> HasPrefix a openParen"
      using not_Contains_drop[of openParen a 0] "1.prems" by (simp add: openParen_def)
    have "\<not> HasPrefix (a @ r) openParen"
    proof (cases "r = []")
      case True
      with na show ?thesis by simp
    next
      case False
      with r0 have "r \<noteq> []" "r ! 0 = CHR 0xEF" by simp_all
      with \<open>a \<noteq> []\<close> na show ?thesis
        unfolding openParen_def by (intro no_overlap) simp_all
    qed
    then have nm: "parenMatch (a @ r) = None" by (simp add: parenMatch_def)
    define w where "w = snd (DecodeRuneInString (a @ r))"
    have w1: "1 \<le> w" unfolding w_def using False by (intro decode_size_pos) simp
    have wa: "w \<le> length a"
      unfolding w_def using False r0 by (intro rune_within) (auto simp: not_cont_EF)
    have "removeParens (a @ r) = take w (a @ r) @ removeParens (drop w (a @ r))"
      using False nm by (subst removeParens.simps) (simp add: w_def)
    also have "\<dots> = take w a @ removeParens (drop w a @ r)" using wa by simp
    also have "removeParens (drop w a @ r) = drop w a @ removeParens r"
    proof -
      have "length (drop w a) < length a" using w1 False by (cases a) auto
      moreover have "\<not> Contains (drop w a) openParen"
        using "1.prems" by (intro not_Contains_suffix) (simp_all add: openParen_def)
      ultimately show ?thesis using "1.IH" by blast
    qed
    finally show ?thesis by simp
  qed
qed

lemma lazyClose_reaches:
  "\<not> Contains x closeParen \<Longrightarrow> CHR 0x0A \<notin> set x \<Longrightarrow>
   lazyClose (x @ closeParen @ b) = Some (length x + 3)"
proof (induction x rule: length_induct)
  case (1 x)
  show ?case
  proof (cases "x = []")
    case True
    then show ?thesis
      by (subst lazyClose.simps) (simp add: HasPrefix_def closeParen_def)
  next
    case False
    define s where "s = x @ closeParen @ b"
    have nx: "\<not> HasPrefix x closeParen"
      using not_Contains_drop[of closeParen x 0] "1.prems"(1) by (simp add: closeParen_def)
    have np: "\<not> HasPrefix s closeParen"
      unfolding s_def closeParen_def using False nx
      by (intro no_overlap) (simp_all add: closeParen_def)
    have ne: "s \<noteq> []" using False by (simp add: s_def)
    have nl: "fst (DecodeRuneInString s) \<noteq> 0x0A"
    proof
      assume eq: "fst (DecodeRuneInString s) = 0x0A"
      then have "byte (s ! 0) = 0x0A" using decode_small[of s] by simp
      then have "s ! 0 = CHR 0x0A" by (auto intro: byte_inj simp: byte_def)
      moreover have "s ! 0 = x ! 0" using False by (simp add: s_def nth_append)
      moreover have "x ! 0 \<in> set x" using False by simp
      ultimately show False using "1.prems"(2) by simp
    qed
    define w where "w = snd (DecodeRuneInString s)"
    have w1: "1 \<le> w" unfolding w_def using ne by (rule decode_size_pos)
    have wx: "w \<le> length x"
      unfolding w_def s_def using False
      by (intro rune_within) (simp_all add: closeParen_def not_cont_EF)
    have "lazyClose s = map_option (\<lambda>n. w + n) (lazyClose (drop w s))"
      using np ne nl by (subst lazyClose.simps) (simp add: w_def)
    also have "drop w s = drop w x @ closeParen @ b" using wx by (simp add: s_def)
    also have "lazyClose (drop w x @ closeParen @ b) = Some (length (drop w x) + 3)"
    proof -
      have "length (drop w x) < length x" using w1 False by (cases x) auto
      moreover have "\<not> Contains (drop w x) closeParen"
        using "1.prems"(1) by (intro not_Contains_suffix) (simp_all add: closeParen_def)
      moreover have "CHR 0x0A \<notin> set (drop w x)"
        using "1.prems"(2) by (meson in_set_dropD)
      ultimately show ?thesis using "1.IH" by blast
    qed
    finally show ?thesis using wx by (simp add: s_def)
  qed
qed

lemma removeParens_group:
  assumes "\<not> Contains x closeParen" "CHR 0x0A \<notin> set x"
  shows "removeParens (openParen @ x @ closeParen @ b) = removeParens b"
proof -
  have "parenMatch (openParen @ x @ closeParen @ b) = Some (3 + (length x + 3))"
    using lazyClose_reaches[OF assms, of b]
    by (simp add: parenMatch_def HasPrefix_def openParen_def)
  moreover have "drop (3 + (length x + 3)) (openParen @ x @ closeParen @ b) = b"
  proof -
    have "length (openParen @ x @ closeParen) = 3 + (length x + 3)"
      by (simp add: openParen_def closeParen_def)
    then show ?thesis
      using append_eq_conv_conj[of "openParen @ x @ closeParen" b "openParen @ x @ closeParen @ b"]
      by (metis append.assoc append_eq_conv_conj)
  qed
  ultimately show ?thesis
    by (subst removeParens.simps) (simp add: openParen_def)
qed

lemma normalizeName_group:
  assumes "\<not> Contains a openParen" "\<not> Contains x closeParen" "CHR 0x0A \<notin> set x"
  shows "normalizeName (a @ openParen @ x @ closeParen @ b) = a @ normalizeName b"
proof -
  have "HasPrefix (openParen @ x @ closeParen @ b) openParen"
    by (simp add: HasPrefix_def)
  then have "removeParens (a @ openParen @ x @ closeParen @ b)
               = a @ removeParens (openParen @ x @ closeParen @ b)"
    using assms(1) by (intro removeParens_keep) simp_all
  then show ?thesis
    by (simp add: normalizeName_def removeParens_group[OF assms(2,3)])
qed

lemma normalizeName_plain:
  assumes "\<not> Contains a openParen"
  shows "normalizeName a = a"
  using removeParens_keep[of "[]" a] assms by (simp add: normalizeName_def removeParens_Nil)

subsection \<open>Every group, byte by byte\<close>

lemma closeAt_skip:
  "w \<le> length s \<Longrightarrow> (\<forall>j<w. \<not> HasPrefix (drop j s) closeParen \<and> s ! j \<noteq> CHR 0x0A)
   \<Longrightarrow> closeAt s = map_option (\<lambda>n. w + n) (closeAt (drop w s))"
proof (induction w arbitrary: s)
  case 0
  then show ?case by (simp add: option.map_ident)
next
  case (Suc w)
  then obtain c cs where s: "s = c # cs" by (cases s) auto
  from Suc.prems(2) have n0: "\<not> HasPrefix s closeParen" "s ! 0 \<noteq> CHR 0x0A"
    by (metis drop0 zero_less_Suc)+
  have "\<forall>j<w. \<not> HasPrefix (drop j cs) closeParen \<and> cs ! j \<noteq> CHR 0x0A"
  proof (intro allI impI)
    fix j assume "j < w"
    then have "Suc j < Suc w" by simp
    with Suc.prems(2) have "\<not> HasPrefix (drop (Suc j) s) closeParen \<and> s ! Suc j \<noteq> CHR 0x0A"
      by blast
    then show "\<not> HasPrefix (drop j cs) closeParen \<and> cs ! j \<noteq> CHR 0x0A" by (simp add: s)
  qed
  moreover from Suc.prems(1) have "w \<le> length cs" by (simp add: s)
  ultimately have "closeAt cs = map_option (\<lambda>n. w + n) (closeAt (drop w cs))"
    by (rule Suc.IH[rotated])
  with n0 show ?case
    by (simp add: s option.map_comp comp_def)
qed

lemma cont_no_paren:
  assumes "j < length s" "cont (s ! j)"
  shows "\<not> HasPrefix (drop j s) closeParen" "\<not> HasPrefix (drop j s) openParen" "s ! j \<noteq> CHR 0x0A"
proof -
  have h: "drop j s ! 0 = s ! j" using assms(1) by simp
  have ne: "s ! j \<noteq> CHR 0xEF" "s ! j \<noteq> CHR 0x0A"
    using assms(2) by (auto simp: cont_def byte_def)
  show "\<not> HasPrefix (drop j s) closeParen" "\<not> HasPrefix (drop j s) openParen"
    using h ne by (auto simp: closeParen_def openParen_def HasPrefix3)
  show "s ! j \<noteq> CHR 0x0A" by (rule ne)
qed

lemma lazyClose_closeAt: "lazyClose s = closeAt s"
proof (induction s rule: length_induct)
  case (1 s)
  show ?case
  proof (cases "HasPrefix s closeParen")
    case True
    then obtain c cs where "s = c # cs" by (cases s) (auto simp: HasPrefix_def closeParen_def)
    with True show ?thesis by (simp add: lazyClose.simps)
  next
    case np: False
    show ?thesis
    proof (cases "s = []")
      case True
      then show ?thesis by (simp add: lazyClose.simps HasPrefix_def closeParen_def)
    next
      case ne: False
      then obtain c cs where s: "s = c # cs" by (cases s) auto
      let ?w = "snd (DecodeRuneInString s)"
      show ?thesis
      proof (cases "fst (DecodeRuneInString s) = 0x0A")
        case True
        then have "fst (DecodeRuneInString s) < 0x80" by simp
        from decode_small[OF this] True have "byte (s ! 0) = 0x0A" by simp
        then have "c = CHR 0x0A" using byte_inj[of c "CHR 0x0A"] by (simp add: s byte_def)
        with np True ne show ?thesis by (simp add: lazyClose.simps s)
      next
        case nl: False
        have c0: "s ! 0 \<noteq> CHR 0x0A"
        proof
          assume "s ! 0 = CHR 0x0A"
          then have "c = CHR 0x0A" by (simp add: s)
          then have "DecodeRuneInString s = (0x0A, 1)"
            using decode_ascii[of c cs] by (simp add: s byte_def)
          with nl show False by simp
        qed
        have w1: "1 \<le> ?w" "?w \<le> length s"
          using decode_size_pos[OF ne] decode_size_le[of s] by simp_all
        have skip: "\<forall>j<?w. \<not> HasPrefix (drop j s) closeParen \<and> s ! j \<noteq> CHR 0x0A"
        proof (intro allI impI)
          fix j assume j: "j < ?w"
          show "\<not> HasPrefix (drop j s) closeParen \<and> s ! j \<noteq> CHR 0x0A"
          proof (cases "j = 0")
            case True
            with np c0 show ?thesis by simp
          next
            case False
            then have "cont (s ! j)" using j by (intro decode_cont) simp_all
            moreover have "j < length s" using j w1 by simp
            ultimately show ?thesis using cont_no_paren[of j s] by simp
          qed
        qed
        have "length (drop ?w s) < length s" using w1 ne by (cases s) auto
        with 1 have ih: "lazyClose (drop ?w s) = closeAt (drop ?w s)" by blast
        have "lazyClose s = map_option (\<lambda>n. ?w + n) (lazyClose (drop ?w s))"
          using np ne nl by (subst lazyClose.simps) simp
        also have "\<dots> = closeAt s"
          unfolding ih using closeAt_skip[OF w1(2) skip] by simp
        finally show ?thesis .
      qed
    qed
  qed
qed

lemma parenMatch_groupAt: "parenMatch s = groupAt s"
  by (simp add: parenMatch_def groupAt_def lazyClose_closeAt)

lemma stripGroups_skip:
  "w \<le> length s \<Longrightarrow> (\<forall>j<w. groupAt (drop j s) = None)
   \<Longrightarrow> stripGroups s = take w s @ stripGroups (drop w s)"
proof (induction w arbitrary: s)
  case 0
  then show ?case by simp
next
  case (Suc w)
  then obtain c cs where s: "s = c # cs" by (cases s) auto
  from Suc.prems(2) have n0: "groupAt s = None" by (metis drop0 zero_less_Suc)
  have "\<forall>j<w. groupAt (drop j cs) = None"
  proof (intro allI impI)
    fix j assume "j < w"
    then have "Suc j < Suc w" by simp
    with Suc.prems(2) have "groupAt (drop (Suc j) s) = None" by blast
    then show "groupAt (drop j cs) = None" by (simp add: s)
  qed
  moreover from Suc.prems(1) have "w \<le> length cs" by (simp add: s)
  ultimately have "stripGroups cs = take w cs @ stripGroups (drop w cs)"
    by (rule Suc.IH[rotated])
  with n0 show ?case by (simp add: s stripGroups.simps)
qed

lemma removeParens_stripGroups: "removeParens s = stripGroups s"
proof (induction s rule: length_induct)
  case (1 s)
  show ?case
  proof (cases "s = []")
    case True
    then show ?thesis by (simp add: removeParens.simps stripGroups.simps)
  next
    case ne: False
    then obtain c cs where s: "s = c # cs" by (cases s) auto
    show ?thesis
    proof (cases "groupAt s")
      case (Some n)
      then have "0 < n" by (rule groupAt_pos)
      then have "length (drop n s) < length s" using ne by (cases s) auto
      with 1 have "removeParens (drop n s) = stripGroups (drop n s)" by blast
      moreover have "removeParens s = removeParens (drop n s)"
        using ne Some by (subst removeParens.simps) (simp add: parenMatch_groupAt)
      moreover have "stripGroups s = stripGroups (drop n s)"
        using Some by (simp add: s stripGroups.simps)
      ultimately show ?thesis by simp
    next
      case None
      let ?w = "snd (DecodeRuneInString s)"
      have w1: "1 \<le> ?w" "?w \<le> length s"
        using decode_size_pos[OF ne] decode_size_le[of s] by simp_all
      have skip: "\<forall>j<?w. groupAt (drop j s) = None"
      proof (intro allI impI)
        fix j assume j: "j < ?w"
        show "groupAt (drop j s) = None"
        proof (cases "j = 0")
          case True
          with None show ?thesis by simp
        next
          case False
          then have "cont (s ! j)" using j by (intro decode_cont) simp_all
          moreover have "j < length s" using j w1 by simp
          ultimately have "\<not> HasPrefix (drop j s) openParen" by (rule cont_no_paren(2)[rotated])
          then show ?thesis by (simp add: groupAt_def)
        qed
      qed
      have "length (drop ?w s) < length s" using w1 ne by (cases s) auto
      with 1 have ih: "removeParens (drop ?w s) = stripGroups (drop ?w s)" by blast
      have "removeParens s = take ?w s @ removeParens (drop ?w s)"
        using ne None by (subst removeParens.simps) (simp add: parenMatch_groupAt)
      also have "\<dots> = stripGroups s"
        unfolding ih using stripGroups_skip[OF w1(2) skip] by simp
      finally show ?thesis .
    qed
  qed
qed

subsection \<open>Evaluation, and spans without a colon\<close>

lemmas str_eval = rangeLoop_Nil rangeLoop_Cons decode_ascii decode3 byte_def cont_def
  IndexAny_def tildeOrSpace_def TrimSpace_def TrimFunc_def TrimLeftFunc_def TrimRightFunc_def
  IsSpace_def lastIndexNot.simps DecodeLastRuneInString_def scanStart.simps RuneStart_def
  HasPrefix_def Let_def

lemma set_beforeSep: "set (beforeSep t) \<subseteq> set t"
  by (induction t) auto

lemma set_TrimSpace: "set (TrimSpace s) \<subseteq> set s"
proof -
  have l: "set (TrimLeftFunc s f) \<subseteq> set s" for s f
    by (auto simp: TrimLeftFunc_def split: option.splits dest: in_set_dropD)
  have r: "set (TrimRightFunc s f) \<subseteq> set s" for s f
    by (auto simp: TrimRightFunc_def Let_def dest: in_set_takeD)
  show ?thesis
    unfolding TrimSpace_def TrimFunc_def using l r by blast
qed

text \<open>A span without a colon is skipped.\<close>

lemma startTimeOf_no_colon: "CHR '':'' \<notin> set spText \<Longrightarrow> startTimeOf spText = None"
  using set_beforeSep[of "TrimSpace spText"] set_TrimSpace[of spText]
  by (auto simp: startTimeOf_eq Let_def)

lemma TrimSpace_nineColonFive: "TrimSpace nineColonFive = nineColonFive"
  by (simp add: nineColonFive_def str_eval)

subsection \<open>The claims about the strings\<close>

text \<open>
  C6, as the specification has it: a span is kept if and only if what is left has at
  least four characters and a colon. The test is \<^verbatim>\<open>len(text) < 4\<close>, which counts
  bytes: the text of three characters below has seven bytes and is kept.
\<close>

theorem C6_counterexample:
  "RuneCountInString nineColonFive = 3 \<and> startTimeOf nineColonFive = Some nineColonFive"
proof -
  have "RuneCountInString nineColonFive = 3"
    by (simp add: RuneCountInString_def nineColonFive_def rangeLoop_Cons rangeLoop_Nil decode3
        decode_ascii byte_def cont_def)
  moreover have "beforeSep nineColonFive = nineColonFive"
    by (simp add: nineColonFive_def HasPrefix_def tilde_def)
  then have "startTimeOf nineColonFive = Some nineColonFive"
    by (simp add: startTimeOf_eq TrimSpace_nineColonFive) (simp add: nineColonFive_def)
  ultimately show ?thesis by simp
qed

text \<open>
  C6, amended. For every text of a span, the start time is the trimmed text before its
  first fullwidth tilde or space, and the span is kept if and only if that has at least
  four bytes and a colon among them. The text \<open>18:05\<close>, tilde, \<open>20:00\<close> gives \<open>18:05\<close>,
  the text \<open>11:00\<close> gives itself, and the empty text and \<open>1100\<close> are skipped.
\<close>

theorem C6_start_time_of_span:
  "startTimeOf spText =
     (let text = beforeSep (TrimSpace spText)
      in if 4 \<le> length text \<and> CHR '':'' \<in> set text then Some text else None)
   \<and> startTimeOf eighteenOhFive = Some ''18:05''
   \<and> startTimeOf ''11:00'' = Some ''11:00''
   \<and> startTimeOf [] = None
   \<and> startTimeOf ''1100'' = None"
proof -
  have t1: "TrimSpace eighteenOhFive = eighteenOhFive"
    by (simp add: eighteenOhFive_def str_eval)
  have t2: "TrimSpace ''11:00'' = ''11:00''" "TrimSpace [] = []" "TrimSpace ''1100'' = ''1100''"
    by (simp_all add: str_eval)
  have b1: "beforeSep eighteenOhFive = ''18:05''"
    by (simp add: eighteenOhFive_def HasPrefix_def tilde_def)
  have b2: "beforeSep ''11:00'' = ''11:00''" "beforeSep ''1100'' = ''1100''"
    by (simp_all add: HasPrefix_def tilde_def)
  have e1: "startTimeOf eighteenOhFive = Some ''18:05''"
    unfolding startTimeOf_eq by (simp add: t1 b1 HasPrefix_def tilde_def)
  have e2: "startTimeOf ''11:00'' = Some ''11:00''"
    unfolding startTimeOf_eq by (simp add: t2 b2 HasPrefix_def tilde_def)
  have e3: "startTimeOf [] = None"
    unfolding startTimeOf_eq by (simp add: t2)
  have e4: "startTimeOf ''1100'' = None"
    unfolding startTimeOf_eq by (simp add: t2 b2 HasPrefix_def tilde_def)
  from startTimeOf_eq[of spText] e1 e2 e3 e4 show ?thesis by blast
qed

text \<open>
  C7, as the specification has it: the normalized name is the raw name without its
  trailing annotation. The expression is not anchored at the end, and every group goes:
  a name with the annotation inside has no trailing one and still loses it.
\<close>

theorem C7_counterexample:
  "specStripTrailing annexInside = annexInside \<and> normalizeName annexInside = ''AB''
   \<and> normalizeName annexInside \<noteq> specStripTrailing annexInside"
proof -
  have s: "specStripTrailing annexInside = annexInside"
    by (simp add: specStripTrailing_def HasSuffix_def annexInside_def openParen_def closeParen_def)
  have "normalizeName ''B'' = ''B''"
    by (rule normalizeName_plain) (simp add: HasPrefix_def openParen_def)
  moreover have "normalizeName (''A'' @ openParen @ ''x'' @ closeParen @ ''B'')
                   = ''A'' @ normalizeName ''B''"
    by (rule normalizeName_group) (simp_all add: HasPrefix_def openParen_def closeParen_def)
  ultimately have n: "normalizeName annexInside = ''AB''" by (simp add: annexInside_def)
  have "annexInside \<noteq> ''AB''" by (simp add: annexInside_def openParen_def)
  with s n show ?thesis by simp
qed

text \<open>
  C7, amended. The normalized name is the raw name with every group in fullwidth
  parentheses that does not run over a line feed taken out, wherever it stands: for
  every raw name, \<^verbatim>\<open>ReplaceAllString\<close> with the expression of the source gives what
  \<open>stripGroups\<close> gives, which skips from each left parenthesis to the nearest right
  parenthesis after it when no line feed lies between, and keeps every other byte, so
  also a name without a group and a left parenthesis that is never closed. The name
  of the specification's example, Shinjuku Piccadilly with the district in fullwidth
  parentheses, loses its trailing annotation; a group with a line feed inside stays.
\<close>

theorem C7_every_group_removed:
  "normalizeName rawName = stripGroups rawName
   \<and> normalizeName (shinjukuPiccadilly @ openParen @ shinjukuKu @ closeParen)
       = shinjukuPiccadilly
   \<and> normalizeName (openParen @ [CHR 0x0A] @ closeParen) = openParen @ [CHR 0x0A] @ closeParen"
proof -
  have h: "\<not> Contains shinjukuPiccadilly openParen" "\<not> Contains shinjukuKu closeParen"
    "CHR 0x0A \<notin> set shinjukuKu"
    by (simp_all add: shinjukuPiccadilly_def shinjukuKu_def openParen_def closeParen_def
        HasPrefix_def)
  have "normalizeName [] = []" by (simp add: normalizeName_def removeParens_Nil)
  with normalizeName_group[OF h, of "[]"]
  have 1: "normalizeName (shinjukuPiccadilly @ openParen @ shinjukuKu @ closeParen)
             = shinjukuPiccadilly"
    by simp
  have 2: "normalizeName (openParen @ [CHR 0x0A] @ closeParen)
             = openParen @ [CHR 0x0A] @ closeParen"
    by (simp add: normalizeName_def removeParens_stripGroups stripGroups.simps groupAt_def
        HasPrefix_def openParen_def closeParen_def)
  have "normalizeName rawName = stripGroups rawName"
    by (simp add: normalizeName_def removeParens_stripGroups)
  with 1 2 show ?thesis by simp
qed

section \<open>Properties of the enrichment\<close>

subsection \<open>What the steps leave alone\<close>

lemmas fill_defs = fillRating_def fillSynopsis_def fillPoster_def fillBackdrop_def
  fillRelease_def fillRuntime_def fillGenre_def fillDirector_def fillCast_def

lemma fills_fixedPart:
  "fixedPart (fillRating data m) = fixedPart m"
  "fixedPart (fillSynopsis data m) = fixedPart m"
  "fixedPart (fillPoster data m) = fixedPart m"
  "fixedPart (fillBackdrop data m) = fixedPart m"
  "fixedPart (fillRelease data m) = fixedPart m"
  "fixedPart (fillRuntime data m) = fixedPart m"
  "fixedPart (fillGenre data m) = fixedPart m"
  "fixedPart (fillDirector data m) = fixedPart m"
  "fixedPart (fillCast env lang data m) = fixedPart m"
  by (simp_all add: fill_defs fixedPart_def Let_def split: option.splits)

lemma fills_TitleJP:
  "TitleJP (fillRating data m) = TitleJP m"
  "TitleJP (fillSynopsis data m) = TitleJP m"
  "TitleJP (fillPoster data m) = TitleJP m"
  "TitleJP (fillBackdrop data m) = TitleJP m"
  "TitleJP (fillRelease data m) = TitleJP m"
  "TitleJP (fillRuntime data m) = TitleJP m"
  "TitleJP (fillGenre data m) = TitleJP m"
  "TitleJP (fillDirector data m) = TitleJP m"
  "TitleJP (fillCast env lang data m) = TitleJP m"
  by (simp_all add: fill_defs Let_def split: option.splits)

lemma fills_TMDBRating:
  "TMDBRating m \<noteq> 0 \<Longrightarrow> TMDBRating (fillRating data m) = TMDBRating m"
  "TMDBRating (fillSynopsis data m) = TMDBRating m"
  "TMDBRating (fillPoster data m) = TMDBRating m"
  "TMDBRating (fillBackdrop data m) = TMDBRating m"
  "TMDBRating (fillRelease data m) = TMDBRating m"
  "TMDBRating (fillRuntime data m) = TMDBRating m"
  "TMDBRating (fillGenre data m) = TMDBRating m"
  "TMDBRating (fillDirector data m) = TMDBRating m"
  "TMDBRating (fillCast env lang data m) = TMDBRating m"
  by (simp_all add: fill_defs Let_def split: option.splits)

lemma fillTitles_keeps:
  "fixedPart (fst (fillTitles lang data mi)) = fixedPart (fst mi)"
  "TMDBRating (fst (fillTitles lang data mi)) = TMDBRating (fst mi)"
  "TitleJP (fst mi) \<noteq> [] \<Longrightarrow> TitleJP (fst (fillTitles lang data mi)) = TitleJP (fst mi)"
  by (simp_all add: fillTitles_def fixedPart_def Let_def)

lemma applyDetail_keeps:
  "fixedPart (fst (applyDetail env lang data mi)) = fixedPart (fst mi)"
  "TMDBRating (fst mi) \<noteq> 0 \<Longrightarrow> TMDBRating (fst (applyDetail env lang data mi)) = TMDBRating (fst mi)"
  "TitleJP (fst mi) \<noteq> [] \<Longrightarrow> TitleJP (fst (applyDetail env lang data mi)) = TitleJP (fst mi)"
  by (simp_all add: applyDetail_def fillTitles_keeps fills_fixedPart fills_TitleJP fills_TMDBRating)

lemma langStep_keeps:
  "fixedPart (the_m (langStep env k e lang)) = fixedPart (the_m e)"
  "TMDBRating (the_m e) \<noteq> 0 \<Longrightarrow> TMDBRating (the_m (langStep env k e lang)) = TMDBRating (the_m e)"
  "TitleJP (the_m e) \<noteq> [] \<Longrightarrow> TitleJP (the_m (langStep env k e lang)) = TitleJP (the_m e)"
  by (auto simp: langStep_def Let_def applyDetail_keeps split: option.splits)

lemma langStep_state:
  "movies (the_st (langStep env k e lang)) = movies (the_st e)"
  "schedules (the_st (langStep env k e lang)) = schedules (the_st e)"
  "cinemas (the_st (langStep env k e lang)) = cinemas (the_st e)"
  by (auto simp: langStep_def Let_def sent_def split: option.splits)

lemma langLoop_keeps:
  "fixedPart (the_m (foldl (langStep env k) e ls)) = fixedPart (the_m e)"
  "TMDBRating (the_m e) \<noteq> 0 \<Longrightarrow> TMDBRating (the_m (foldl (langStep env k) e ls)) = TMDBRating (the_m e)"
  "TitleJP (the_m e) \<noteq> [] \<Longrightarrow> TitleJP (the_m (foldl (langStep env k) e ls)) = TitleJP (the_m e)"
  by (induction ls arbitrary: e; simp add: langStep_keeps)+

lemma langLoop_state:
  "movies (the_st (foldl (langStep env k) e ls)) = movies (the_st e)"
  "schedules (the_st (foldl (langStep env k) e ls)) = schedules (the_st e)"
  "cinemas (the_st (foldl (langStep env k) e ls)) = cinemas (the_st e)"
  by (induction ls arbitrary: e; simp add: langStep_state)+

lemma imdbStep_keeps:
  "ID (fst (imdbStep env e)) = ID (the_m e)"
  "Status (fst (imdbStep env e)) = Status (the_m e)"
  "TMDBID (fst (imdbStep env e)) = TMDBID (the_m e)"
  "DoubanRating (fst (imdbStep env e)) = DoubanRating (the_m e)"
  "TMDBRating (fst (imdbStep env e)) = TMDBRating (the_m e)"
  "TitleJP (fst (imdbStep env e)) = TitleJP (the_m e)"
  "Year (fst (imdbStep env e)) = Year (the_m e)"
  "ReleaseDate (fst (imdbStep env e)) = ReleaseDate (the_m e)"
  "IMDBID (the_m e) \<noteq> [] \<Longrightarrow> IMDBID (fst (imdbStep env e)) \<noteq> []"
  by (simp_all add: imdbStep_def Let_def)

lemma imdbStep_state:
  "movies (snd (imdbStep env e)) = movies (the_st e)"
  "schedules (snd (imdbStep env e)) = schedules (the_st e)"
  "cinemas (snd (imdbStep env e)) = cinemas (the_st e)"
  by (simp_all add: imdbStep_def Let_def fetchImdbRating_def sent_def)

lemma releaseFallback_keeps:
  "fixedPart (releaseFallback m) = fixedPart m"
  "TMDBRating (releaseFallback m) = TMDBRating m"
  "TitleJP (releaseFallback m) = TitleJP m"
  "Year (releaseFallback m) = Year m"
  by (simp_all add: releaseFallback_def fixedPart_def split: option.splits)

lemma doubanStep_id: "doubanStep env ms = ms"
  by (simp add: doubanStep_def ENABLE_DOUBAN_RATING_def)

text \<open>The three ways through enrichMovieRatings.\<close>

lemma enrich_cases:
  obtains
    (skipped) "enrichMovieRatings env m st = (m, st)" "isComplete m \<or> TrimSpace (TitleJP m) = []"
  | (notFound) "enrichMovieRatings env m st = (m, sent (TmdbSearch (TrimSpace (TitleJP m))) st)"
      "\<not> isComplete m" "TrimSpace (TitleJP m) \<noteq> []"
  | (saved) e m' where
      "reachesSave env m"
      "e = foldl (langStep env (tmdbSearch env (TrimSpace (TitleJP m))))
             \<lparr>the_m = (if TMDBID m = 0 then m\<lparr>TMDBID := tmdbSearch env (TrimSpace (TitleJP m))\<rparr> else m),
              the_imdbID = [], the_st = sent (TmdbSearch (TrimSpace (TitleJP m))) st\<rparr> langs"
      "m' = releaseFallback (fst (imdbStep env e))"
      "enrichMovieRatings env m st = (m', saveMovie m' (snd (imdbStep env e)))"
proof (cases "isComplete m \<or> TrimSpace (TitleJP m) = []")
  case True
  then have "enrichMovieRatings env m st = (m, st)"
    by (auto simp: enrichMovieRatings_def Let_def)
  with True show ?thesis using skipped by blast
next
  case False
  show ?thesis
  proof (cases "tmdbSearch env (TrimSpace (TitleJP m)) = 0")
    case True
    with False have "enrichMovieRatings env m st = (m, sent (TmdbSearch (TrimSpace (TitleJP m))) st)"
      by (simp add: enrichMovieRatings_def Let_def searchTmdbID_def)
    with False show ?thesis by (auto intro: notFound)
  next
    case nz: False
    show ?thesis
      by (rule saved[OF _ refl refl])
         (use False nz in \<open>simp_all add: reachesSave_def enrichMovieRatings_def Let_def
            searchTmdbID_def doubanStep_id\<close>)
  qed
qed

subsection \<open>Evaluating the string functions\<close>

lemma TrimSpace_Nil: "TrimSpace [] = []"
  by (simp add: str_eval)

lemma TrimSpace_PD: "TrimSpace ''PERFECT DAYS'' = ''PERFECT DAYS''"
  by (simp add: str_eval)

subsection \<open>What a call leaves alone\<close>

lemma enrich_fixed:
  "ID (fst (enrichMovieRatings env m st)) = ID m"
  "Status (fst (enrichMovieRatings env m st)) = Status m"
  "DoubanRating (fst (enrichMovieRatings env m st)) = DoubanRating m"
proof -
  have "ID (fst (enrichMovieRatings env m st)) = ID m
      \<and> Status (fst (enrichMovieRatings env m st)) = Status m
      \<and> DoubanRating (fst (enrichMovieRatings env m st)) = DoubanRating m"
  proof (cases rule: enrich_cases[where env=env and m=m and st=st])
    case (saved e m')
    have "fixedPart (the_m e)
            = fixedPart (if TMDBID m = 0 then m\<lparr>TMDBID := tmdbSearch env (TrimSpace (TitleJP m))\<rparr> else m)"
      unfolding saved(2) by (simp add: langLoop_keeps)
    then show ?thesis
      using releaseFallback_keeps(1)[of "fst (imdbStep env e)"]
      by (simp add: saved(3,4) imdbStep_keeps fixedPart_def split: if_splits)
  qed simp_all
  then show "ID (fst (enrichMovieRatings env m st)) = ID m"
    "Status (fst (enrichMovieRatings env m st)) = Status m"
    "DoubanRating (fst (enrichMovieRatings env m st)) = DoubanRating m"
    by simp_all
qed

lemma enrich_TitleJP: "TitleJP (fst (enrichMovieRatings env m st)) = TitleJP m"
proof (cases rule: enrich_cases[where env=env and m=m and st=st])
  case (saved e m')
  from saved(1) have "TitleJP m \<noteq> []"
    by (auto simp: reachesSave_def TrimSpace_Nil)
  then have "TitleJP (the_m e) = TitleJP m"
    unfolding saved(2) by (subst langLoop_keeps) simp_all
  then show ?thesis
    by (simp add: saved(3,4) imdbStep_keeps releaseFallback_keeps)
qed simp_all

lemma enrich_TMDBRating:
  assumes "TMDBRating m \<noteq> 0"
  shows "TMDBRating (fst (enrichMovieRatings env m st)) = TMDBRating m"
proof (cases rule: enrich_cases[where env=env and m=m and st=st])
  case (saved e m')
  have "TMDBRating (the_m e) = TMDBRating m"
    unfolding saved(2) using assms by (subst langLoop_keeps) simp_all
  then show ?thesis
    by (simp add: saved(3,4) imdbStep_keeps releaseFallback_keeps)
qed simp_all

lemma enrich_TMDBID:
  assumes "TMDBID m \<noteq> 0"
  shows "TMDBID (fst (enrichMovieRatings env m st)) = TMDBID m"
proof (cases rule: enrich_cases[where env=env and m=m and st=st])
  case (saved e m')
  have "fixedPart (the_m e) = fixedPart m"
    unfolding saved(2) using assms by (simp add: langLoop_keeps)
  then show ?thesis
    using releaseFallback_keeps(1)[of "fst (imdbStep env e)"]
    by (simp add: saved(3,4) imdbStep_keeps fixedPart_def)
qed simp_all

lemma enrich_IMDBID_not_cleared:
  assumes "IMDBID m \<noteq> []"
  shows "IMDBID (fst (enrichMovieRatings env m st)) \<noteq> []"
proof (cases rule: enrich_cases[where env=env and m=m and st=st])
  case (saved e m')
  have "fixedPart (the_m e)
          = fixedPart (if TMDBID m = 0 then m\<lparr>TMDBID := tmdbSearch env (TrimSpace (TitleJP m))\<rparr> else m)"
    unfolding saved(2) by (simp add: langLoop_keeps)
  then have "IMDBID (the_m e) \<noteq> []" using assms by (simp add: fixedPart_def split: if_splits)
  then have "IMDBID (fst (imdbStep env e)) \<noteq> []" by (rule imdbStep_keeps)
  then show ?thesis
    using releaseFallback_keeps(1)[of "fst (imdbStep env e)"]
    by (simp add: saved(3,4) fixedPart_def)
qed (simp_all add: assms)

lemma enrich_tables:
  "schedules (snd (enrichMovieRatings env m st)) = schedules st"
  "cinemas (snd (enrichMovieRatings env m st)) = cinemas st"
  by (cases rule: enrich_cases[where env=env and m=m and st=st];
      simp add: sent_def saveMovie_def imdbStep_state langLoop_state)+

lemma langStep_imdbID:
  "the_imdbID (langStep env k e lang) =
     (case tmdbMovie env k lang of
        None \<Rightarrow> the_imdbID e
      | Some data \<Rightarrow>
          if (lang = ''zh-CN'' \<or> lang = ''en-US'') \<and> the_imdbID e = [] then d_ImdbID data
          else the_imdbID e)"
  by (auto simp: langStep_def applyDetail_def fillTitles_def Let_def split: option.splits)

lemma langLoop_imdbID:
  "the_imdbID (foldl (langStep env k) \<lparr>the_m = m, the_imdbID = [], the_st = st\<rparr> langs)
     = capturedImdbID env k"
  by (simp add: langs_def langStep_imdbID capturedImdbID_def Let_def split: option.splits)

lemma enrich_imdb:
  assumes "reachesSave env m"
  shows "IMDBID (fst (enrichMovieRatings env m st))
           = (let i = capturedImdbID env (tmdbSearch env (TrimSpace (TitleJP m)))
              in if i \<noteq> [] then i else IMDBID m)"
    and "IMDBRating (fst (enrichMovieRatings env m st))
           = (let i = capturedImdbID env (tmdbSearch env (TrimSpace (TitleJP m)))
              in if i \<noteq> [] then fst (omdb env i) else IMDBRating m)"
proof -
  define k where "k = tmdbSearch env (TrimSpace (TitleJP m))"
  define m1 where "m1 = (if TMDBID m = 0 then m\<lparr>TMDBID := k\<rparr> else m)"
  define e where "e = foldl (langStep env k)
      \<lparr>the_m = m1, the_imdbID = [], the_st = sent (TmdbSearch (TrimSpace (TitleJP m))) st\<rparr> langs"
  have res: "fst (enrichMovieRatings env m st) = releaseFallback (fst (imdbStep env e))"
    using assms
    by (simp add: enrichMovieRatings_def reachesSave_def Let_def searchTmdbID_def doubanStep_id
        e_def m1_def k_def)
  have i: "the_imdbID e = capturedImdbID env k"
    unfolding e_def by (rule langLoop_imdbID)
  have fp: "fixedPart (the_m e) = fixedPart m1"
    unfolding e_def by (simp add: langLoop_keeps)
  have old: "IMDBID (the_m e) = IMDBID m" "IMDBRating (the_m e) = IMDBRating m"
    using fp by (simp_all add: fixedPart_def m1_def split: if_splits)
  have rf: "IMDBID (releaseFallback x) = IMDBID x" "IMDBRating (releaseFallback x) = IMDBRating x" for x
    using releaseFallback_keeps(1)[of x] by (simp_all add: fixedPart_def)
  show "IMDBID (fst (enrichMovieRatings env m st))
           = (let i = capturedImdbID env (tmdbSearch env (TrimSpace (TitleJP m)))
              in if i \<noteq> [] then i else IMDBID m)"
    by (simp add: res rf imdbStep_def i old Let_def k_def[symmetric])
  show "IMDBRating (fst (enrichMovieRatings env m st))
           = (let i = capturedImdbID env (tmdbSearch env (TrimSpace (TitleJP m)))
              in if i \<noteq> [] then fst (omdb env i) else IMDBRating m)"
    by (simp add: res rf imdbStep_def i old Let_def k_def[symmetric] fetchImdbRating_def)
qed

subsection \<open>The fallback of the release date\<close>

lemma div_bounds:
  fixes k :: int
  assumes "0 < n"
  shows "n * (k div n) \<le> k" "k < n * (k div n) + n"
proof -
  have "k = n * (k div n) + k mod n" by simp
  moreover have "0 \<le> k mod n" "k mod n < n" using assms by simp_all
  ultimately show "n * (k div n) \<le> k" "k < n * (k div n) + n" by linarith+
qed

lemma leap_sum_zero:
  fixes k :: int
  shows "(365 * k + k div 4 - k div 100 + k div 400 = 0) = (k = 0)"
  using div_bounds[of 4 k] div_bounds[of 100 k] div_bounds[of 400 k]
  by auto


lemma civil_jan1_zero: "(civilDay y 1 1 = - 719162) = (y = 1)"
proof -
  have "civilDay y 1 1 = 365 * (y - 1) + (y - 1) div 4 - (y - 1) div 100 + (y - 1) div 400 - 719162"
    by (simp add: civilDay_def daysBefore_def)
  then show ?thesis
    using leap_sum_zero[of "y - 1"] by linarith
qed

lemma IsZero_Date_jan1: "IsZero (Date y 1 1) = (y = 1)"
  using civil_jan1_zero[of y]
  by (simp add: IsZero_def Date_def midnightUTC_def zero_ns_def day_ns_def second_def)

lemma atoi_01: "atoi ''01'' = 1"
  by (simp add: atoi_def byte_def)


lemma ParseDash_jan1:
  assumes "length ys = 4" "list_all isDigit ys"
  shows "ParseDash (ys @ ''-01-01'') = Some (Date (atoi ys) 1 1)"
proof -
  have d: "list_all isDigit ''0101''" by (simp add: isDigit_def byte_def)
  have "dateOfFields ys ''01'' ''01'' = Some (Date (atoi ys) 1 1)"
    using assms(2) d by (simp add: dateOfFields_def atoi_01 daysIn_def)
  then show ?thesis
    using assms(1) by (simp add: ParseDash_def nth_append)
qed


lemma ParseDash_not_year:
  assumes "\<not> (length ys = 4 \<and> list_all isDigit ys)"
  shows "ParseDash (ys @ ''-01-01'') = None"
proof (cases "length ys = 4")
  case True
  with assms have "\<not> list_all isDigit ys" by simp
  then have "dateOfFields ys ''01'' ''01'' = None" by (simp add: dateOfFields_def)
  then show ?thesis using True by (simp add: ParseDash_def)
next
  case False
  then show ?thesis by (simp add: ParseDash_def)
qed

lemma releaseFallback_year:
  assumes "IsZero (ReleaseDate x)" "length (Year x) = 4" "list_all isDigit (Year x)"
  shows "releaseFallback x = x\<lparr>ReleaseDate := Date (atoi (Year x)) 1 1\<rparr>"
proof -
  from assms(2) have "Year x \<noteq> []" by auto
  then show ?thesis
    using assms by (simp add: releaseFallback_def ParseDash_jan1)
qed

lemma releaseFallback_not_year:
  assumes "IsZero (ReleaseDate x)" "\<not> (length (Year x) = 4 \<and> list_all isDigit (Year x))"
  shows "releaseFallback x = x"
  using assms(1) ParseDash_not_year[OF assms(2)] by (simp add: releaseFallback_def)

lemma releaseFallback_post:
  assumes "length (Year (releaseFallback x)) = 4" "list_all isDigit (Year (releaseFallback x))"
    "atoi (Year (releaseFallback x)) \<noteq> 1"
  shows "\<not> IsZero (ReleaseDate (releaseFallback x))"
proof (cases "IsZero (ReleaseDate x)")
  case True
  from assms have y: "length (Year x) = 4" "list_all isDigit (Year x)" "atoi (Year x) \<noteq> 1"
    by (simp_all add: releaseFallback_keeps)
  show ?thesis
    by (simp add: releaseFallback_year[OF True y(1,2)] IsZero_Date_jan1 y(3))
next
  case False
  then show ?thesis by (simp add: releaseFallback_def)
qed

text \<open>
  The call in two parts, steps 1 to 3 and then the fallback and \<^verbatim>\<open>db.Save\<close>; what the
  fallback does, in one equation; and what steps 1 to 3 do to the year and the release
  date.
\<close>

lemma enrich_beforeFallback:
  assumes "reachesSave env m"
  shows "enrichMovieRatings env m st
           = (releaseFallback (fst (beforeFallback env m st)),
              saveMovie (releaseFallback (fst (beforeFallback env m st)))
                (snd (beforeFallback env m st)))"
  using assms
  by (simp add: enrichMovieRatings_def reachesSave_def beforeFallback_def Let_def
      searchTmdbID_def doubanStep_id)

lemma releaseFallback_eq:
  "releaseFallback x
     = x\<lparr>ReleaseDate := (if IsZero (ReleaseDate x) \<and> fourDigits (Year x)
                          then Date (atoi (Year x)) 1 1 else ReleaseDate x)\<rparr>"
proof (cases "IsZero (ReleaseDate x)")
  case True
  show ?thesis
  proof (cases "fourDigits (Year x)")
    case f: True
    then show ?thesis
      using True releaseFallback_year[OF True] by (simp add: fourDigits_def)
  next
    case f: False
    then have "releaseFallback x = x"
      by (intro releaseFallback_not_year[OF True]) (simp add: fourDigits_def)
    with f show ?thesis by simp
  qed
next
  case False
  then show ?thesis by (simp add: releaseFallback_def)
qed

lemma fills_Year:
  "Year (fillRating data m) = Year m"
  "Year (fillSynopsis data m) = Year m"
  "Year (fillPoster data m) = Year m"
  "Year (fillBackdrop data m) = Year m"
  "Year m \<noteq> [] \<Longrightarrow> Year (fillRelease data m) = Year m"
  "Year (fillRuntime data m) = Year m"
  "Year (fillGenre data m) = Year m"
  "Year (fillDirector data m) = Year m"
  "Year (fillCast env lang data m) = Year m"
  by (simp_all add: fill_defs Let_def split: option.splits)

lemma fills_ReleaseDate:
  "ReleaseDate (fillRating data m) = ReleaseDate m"
  "ReleaseDate (fillSynopsis data m) = ReleaseDate m"
  "ReleaseDate (fillPoster data m) = ReleaseDate m"
  "ReleaseDate (fillBackdrop data m) = ReleaseDate m"
  "\<not> IsZero (ReleaseDate m) \<or> ParseDash (d_ReleaseDate data) = None
     \<Longrightarrow> ReleaseDate (fillRelease data m) = ReleaseDate m"
  "ReleaseDate (fillRuntime data m) = ReleaseDate m"
  "ReleaseDate (fillGenre data m) = ReleaseDate m"
  "ReleaseDate (fillDirector data m) = ReleaseDate m"
  "ReleaseDate (fillCast env lang data m) = ReleaseDate m"
  by (auto simp: fill_defs Let_def split: option.splits)

lemma fillTitles_dates:
  "Year (fst (fillTitles lang data mi)) = Year (fst mi)"
  "ReleaseDate (fst (fillTitles lang data mi)) = ReleaseDate (fst mi)"
  by (simp_all add: fillTitles_def Let_def)

lemma applyDetail_dates:
  "Year (fst mi) \<noteq> [] \<Longrightarrow> Year (fst (applyDetail env lang data mi)) = Year (fst mi)"
  "\<not> IsZero (ReleaseDate (fst mi)) \<or> ParseDash (d_ReleaseDate data) = None
     \<Longrightarrow> ReleaseDate (fst (applyDetail env lang data mi)) = ReleaseDate (fst mi)"
  by (simp_all add: applyDetail_def fillTitles_dates fills_Year fills_ReleaseDate)

lemma langStep_dates:
  "Year (the_m e) \<noteq> [] \<Longrightarrow> Year (the_m (langStep env k e lang)) = Year (the_m e)"
  "\<not> IsZero (ReleaseDate (the_m e)) \<or> noDateFrom env k lang
     \<Longrightarrow> ReleaseDate (the_m (langStep env k e lang)) = ReleaseDate (the_m e)"
  by (auto simp: langStep_def Let_def applyDetail_dates noDateFrom_def split: option.splits)

lemma langLoop_Year:
  "Year (the_m e) \<noteq> [] \<Longrightarrow> Year (the_m (foldl (langStep env k) e ls)) = Year (the_m e)"
  by (induction ls arbitrary: e) (simp_all add: langStep_dates)

lemma langLoop_ReleaseDate:
  "\<not> IsZero (ReleaseDate (the_m e)) \<or> (\<forall>lang\<in>set ls. noDateFrom env k lang)
     \<Longrightarrow> ReleaseDate (the_m (foldl (langStep env k) e ls)) = ReleaseDate (the_m e)"
proof (induction ls arbitrary: e)
  case Nil
  then show ?case by simp
next
  case (Cons l ls)
  from Cons.prems have 1: "ReleaseDate (the_m (langStep env k e l)) = ReleaseDate (the_m e)"
    by (intro langStep_dates(2)) auto
  from Cons.prems have "\<not> IsZero (ReleaseDate (the_m (langStep env k e l)))
      \<or> (\<forall>lang\<in>set ls. noDateFrom env k lang)"
    by (auto simp: 1)
  from Cons.IH[OF this] 1 show ?case by simp
qed

lemma beforeFallback_dates:
  "Year m \<noteq> [] \<Longrightarrow> Year (fst (beforeFallback env m st)) = Year m"
  "\<not> IsZero (ReleaseDate m)
     \<or> (\<forall>lang\<in>set langs. noDateFrom env (tmdbSearch env (TrimSpace (TitleJP m))) lang)
     \<Longrightarrow> ReleaseDate (fst (beforeFallback env m st)) = ReleaseDate m"
proof -
  show "Year (fst (beforeFallback env m st)) = Year m" if "Year m \<noteq> []"
    using that
    by (simp add: beforeFallback_def Let_def imdbStep_keeps searchTmdbID_def langLoop_Year)
  show "ReleaseDate (fst (beforeFallback env m st)) = ReleaseDate m"
    if "\<not> IsZero (ReleaseDate m)
     \<or> (\<forall>lang\<in>set langs. noDateFrom env (tmdbSearch env (TrimSpace (TitleJP m))) lang)"
    using that
    by (simp add: beforeFallback_def Let_def imdbStep_keeps searchTmdbID_def langLoop_ReleaseDate)
qed

subsection \<open>The claims about the enrichment\<close>

text \<open>
  C2. A rating that is not zero is never changed by a later call, says the
  specification. The TMDB rating is guarded (\<open>enrich_TMDBRating\<close>) and the Douban
  rating is behind a switch that is off (\<open>enrich_fixed\<close>), but step 3 assigns the IMDb
  rating whenever an IMDb ID was captured. Here the stored movie has the IMDb rating
  7.9, the request to OMDb fails, \<^verbatim>\<open>fetchImdbRating\<close> returns 0, and the call leaves
  the rating 0.
\<close>

theorem C2_imdb_rating_overwritten:
  "IMDBRating perfectDays = 7.9
   \<and> IMDBRating (fst (enrichMovieRatings omdbDown perfectDays oneMovie)) = 0"
proof -
  have r: "reachesSave omdbDown perfectDays"
    by (simp add: reachesSave_def isComplete_def perfectDays_def zeroMovie_def TrimSpace_PD
        omdbDown_def)
  have c: "capturedImdbID omdbDown 976893 = ''tt27503384''"
    by (simp add: capturedImdbID_def omdbDown_def zeroData_def)
  have t: "tmdbSearch omdbDown (TrimSpace (TitleJP perfectDays)) = 976893"
    by (simp add: omdbDown_def)
  show ?thesis
    using enrich_imdb(2)[OF r, of oneMovie]
    by (simp add: t c) (simp add: omdbDown_def perfectDays_def)
qed

text \<open>
  C4. A movie with a Chinese title, an English title, a TMDB rating above zero and a
  release date that is not the zero time comes back from \<^verbatim>\<open>enrichMovieRatings\<close> as it
  went in, and so does the state: no query is sent and no table is written.
\<close>

theorem C4_complete_movie_returns_at_once:
  assumes "TitleCN m \<noteq> []" and "TitleEN m \<noteq> []" and "TMDBRating m > 0"
    and "\<not> IsZero (ReleaseDate m)"
  shows "enrichMovieRatings env m st = (m, st)"
  using assms by (simp add: enrichMovieRatings_def isComplete_def)

theorem C4_witness:
  "TitleCN theHunt \<noteq> [] \<and> TitleEN theHunt \<noteq> [] \<and> TMDBRating theHunt > 0
   \<and> \<not> IsZero (ReleaseDate theHunt)
   \<and> enrichMovieRatings omdbDown theHunt (emptyState\<lparr>movies := [theHunt]\<rparr>)
       = (theHunt, emptyState\<lparr>movies := [theHunt]\<rparr>)"
proof -
  have h: "TitleCN theHunt \<noteq> []" "TitleEN theHunt \<noteq> []" "TMDBRating theHunt > 0"
    "\<not> IsZero (ReleaseDate theHunt)"
    by (simp_all add: theHunt_def zeroMovie_def IsZero_def Date_def civilDay_def daysBefore_def
        isLeap_def midnightUTC_def zero_ns_def day_ns_def second_def)
  from h C4_complete_movie_returns_at_once[OF h] show ?thesis by simp
qed

text \<open>
  C5, as the specification has it: after a call that reaches \<^verbatim>\<open>db.Save\<close>, a year that
  is not empty implies a release date that is set. The fallback parses the year with
  \<^verbatim>\<open>time.Parse\<close> and keeps the zero time when that fails: for the TMDB release date
  \<open>TBA 2027\<close> the year becomes its first four bytes and the release date stays zero.
\<close>

theorem C5_counterexample:
  "reachesSave oddDate fresh
   \<and> Year (fst (enrichMovieRatings oddDate fresh oneMovie)) = ''TBA ''
   \<and> IsZero (ReleaseDate (fst (enrichMovieRatings oddDate fresh oneMovie)))"
proof -
  have "fst (enrichMovieRatings oddDate fresh oneMovie)
          = fresh\<lparr>TMDBID := 976893, Year := ''TBA ''\<rparr>"
    by (simp add: enrichMovieRatings_def isComplete_def searchTmdbID_def langs_def langStep_def
        imdbStep_def releaseFallback_def doubanStep_id sent_def Let_def
        applyDetail_def fill_defs fillTitles_def zeroData_def TrimSpace_Nil
        fresh_def oddDate_def zeroMovie_def zeroTime_def TrimSpace_PD IsZero_def
        ParseDash_def dateOfFields_def isDigit_def byte_def)
  moreover have "reachesSave oddDate fresh"
    by (simp add: reachesSave_def isComplete_def fresh_def zeroMovie_def TrimSpace_PD oddDate_def)
  ultimately show ?thesis
    by (simp add: fresh_def zeroMovie_def zeroTime_def IsZero_def)
qed

text \<open>
  C5, amended. In a call that reaches \<^verbatim>\<open>db.Save\<close>, let \<open>x\<close> be the movie after step 3
  and \<open>r\<close> the movie that the call returns. Then \<open>r\<close> is \<open>x\<close> with one field changed at
  most: if the release date of \<open>x\<close> is the zero time and its year is four decimal
  digits, the release date of \<open>r\<close> is midnight UTC of January 1 of that year, and in
  every other case, so for a year that \<^verbatim>\<open>time.Parse\<close> rejects, it is the release date of
  \<open>x\<close>, zero if that was zero. The row that is saved is \<open>r\<close>. Hence whenever the year of
  \<open>r\<close> has four digits and is not 0001, whose January 1 is the zero time itself, the
  release date of \<open>r\<close> is not zero. And \<open>x\<close> has the year of the stored movie when that
  was not empty, and its release date when that was not zero or when no detail of TMDB
  carries a date that parses.
\<close>

theorem C5_fallback_for_four_digit_year:
  assumes "reachesSave env m"
  shows "let x = fst (beforeFallback env m st);
             r = fst (enrichMovieRatings env m st)
         in r = x\<lparr>ReleaseDate := (if IsZero (ReleaseDate x) \<and> fourDigits (Year x)
                                    then Date (atoi (Year x)) 1 1 else ReleaseDate x)\<rparr>
            \<and> snd (enrichMovieRatings env m st) = saveMovie r (snd (beforeFallback env m st))
            \<and> (fourDigits (Year r) \<and> atoi (Year r) \<noteq> 1 \<longrightarrow> \<not> IsZero (ReleaseDate r))
            \<and> (Year m \<noteq> [] \<longrightarrow> Year x = Year m)
            \<and> (\<not> IsZero (ReleaseDate m) \<longrightarrow> ReleaseDate x = ReleaseDate m)
            \<and> ((\<forall>lang\<in>set langs.
                   noDateFrom env (tmdbSearch env (TrimSpace (TitleJP m))) lang)
                 \<longrightarrow> ReleaseDate x = ReleaseDate m)"
proof -
  define x where "x = fst (beforeFallback env m st)"
  define r where "r = fst (enrichMovieRatings env m st)"
  note e = enrich_beforeFallback[OF assms, of st]
  have r: "r = releaseFallback x" by (simp add: r_def x_def e)
  have 1: "r = x\<lparr>ReleaseDate := (if IsZero (ReleaseDate x) \<and> fourDigits (Year x)
                                    then Date (atoi (Year x)) 1 1 else ReleaseDate x)\<rparr>"
    unfolding r by (rule releaseFallback_eq)
  have 2: "snd (enrichMovieRatings env m st) = saveMovie r (snd (beforeFallback env m st))"
    by (simp add: e r x_def)
  have 3: "fourDigits (Year r) \<and> atoi (Year r) \<noteq> 1 \<longrightarrow> \<not> IsZero (ReleaseDate r)"
    unfolding r by (simp add: fourDigits_def releaseFallback_post)
  have 4: "Year m \<noteq> [] \<longrightarrow> Year x = Year m"
    by (simp add: x_def beforeFallback_dates)
  have 5: "\<not> IsZero (ReleaseDate m) \<longrightarrow> ReleaseDate x = ReleaseDate m"
    by (simp add: x_def beforeFallback_dates)
  have 6: "(\<forall>lang\<in>set langs. noDateFrom env (tmdbSearch env (TrimSpace (TitleJP m))) lang)
             \<longrightarrow> ReleaseDate x = ReleaseDate m"
    by (simp add: x_def beforeFallback_dates)
  from 1 2 3 4 5 6 show ?thesis
    unfolding Let_def x_def[symmetric] r_def[symmetric] by blast
qed

text \<open>
  The witness: a stored movie with the year 2023 and no release date, and no detail
  from TMDB. The call returns it with the release date 2023-01-01.
\<close>

theorem C5_witness:
  "reachesSave detailsDown yearOnly
   \<and> Year yearOnly = ''2023'' \<and> fourDigits (Year yearOnly) \<and> IsZero (ReleaseDate yearOnly)
   \<and> map (noDateFrom detailsDown (tmdbSearch detailsDown (TrimSpace (TitleJP yearOnly)))) langs
       = [True, True, True]
   \<and> ReleaseDate (fst (enrichMovieRatings detailsDown yearOnly oneMovie)) = Date 2023 1 1
   \<and> Year (fst (enrichMovieRatings detailsDown yearOnly oneMovie)) = ''2023''
   \<and> \<not> IsZero (ReleaseDate (fst (enrichMovieRatings detailsDown yearOnly oneMovie)))"
proof -
  define x where "x = fst (beforeFallback detailsDown yearOnly oneMovie)"
  define r where "r = fst (enrichMovieRatings detailsDown yearOnly oneMovie)"
  have rs: "reachesSave detailsDown yearOnly"
    by (simp add: reachesSave_def isComplete_def yearOnly_def fresh_def zeroMovie_def
        TrimSpace_PD detailsDown_def)
  have y: "Year yearOnly = ''2023''" "fourDigits (Year yearOnly)" "atoi ''2023'' = 2023"
    by (simp_all add: yearOnly_def fresh_def fourDigits_def isDigit_def byte_def atoi_def)
  have z: "IsZero (ReleaseDate yearOnly)"
    by (simp add: yearOnly_def fresh_def zeroMovie_def zeroTime_def IsZero_def)
  have n: "map (noDateFrom detailsDown (tmdbSearch detailsDown (TrimSpace (TitleJP yearOnly)))) langs
       = [True, True, True]"
    by (simp add: noDateFrom_def detailsDown_def langs_def)
  then have nb: "\<forall>lang\<in>set langs.
      noDateFrom detailsDown (tmdbSearch detailsDown (TrimSpace (TitleJP yearOnly))) lang"
    by (simp add: langs_def)
  note th = C5_fallback_for_four_digit_year[OF rs, of oneMovie, unfolded Let_def,
      folded x_def r_def]
  from th y(1) have yx: "Year x = ''2023''" by simp
  from th nb have dx: "ReleaseDate x = ReleaseDate yearOnly" by blast
  from th have "r = x\<lparr>ReleaseDate := (if IsZero (ReleaseDate x) \<and> fourDigits (Year x)
                                    then Date (atoi (Year x)) 1 1 else ReleaseDate x)\<rparr>"
    by blast
  then have "r = x\<lparr>ReleaseDate := Date 2023 1 1\<rparr>"
    using z y by (simp add: yx dx)
  then have d: "ReleaseDate r = Date 2023 1 1" "Year r = ''2023''" by (simp_all add: yx)
  have f: "fourDigits (Year r)" "atoi (Year r) \<noteq> 1"
    using y by (simp_all add: d)
  from th f have "\<not> IsZero (ReleaseDate r)" by blast
  with rs y z n d show ?thesis by (simp add: r_def)
qed

text \<open>
  C9. Once set, the TMDB ID and the IMDb ID are never replaced, says the
  specification. The TMDB ID is guarded (\<open>enrich_TMDBID\<close>) and the IMDb ID is never
  emptied (\<open>enrich_IMDBID_not_cleared\<close>), but step 3 assigns the IMDb ID that the loop
  captured, and the loop asks for the details of the ID that this call's search
  returned, not of the stored one. Here the search puts another film first: the stored
  TMDB ID stays and the IMDb ID becomes the other film's.
\<close>

theorem C9_imdb_id_replaced:
  "TMDBID perfectDays = 976893 \<and> IMDBID perfectDays = ''tt27503384''
   \<and> TMDBID (fst (enrichMovieRatings otherFilmFirst perfectDays oneMovie)) = 976893
   \<and> IMDBID (fst (enrichMovieRatings otherFilmFirst perfectDays oneMovie)) = ''tt0000002''"
proof -
  have r: "reachesSave otherFilmFirst perfectDays"
    by (simp add: reachesSave_def isComplete_def perfectDays_def zeroMovie_def TrimSpace_PD
        otherFilmFirst_def)
  have c: "capturedImdbID otherFilmFirst 1111 = ''tt0000002''"
    by (simp add: capturedImdbID_def otherFilmFirst_def zeroData_def)
  have t: "tmdbSearch otherFilmFirst (TrimSpace (TitleJP perfectDays)) = 1111"
    by (simp add: otherFilmFirst_def)
  have k: "TMDBID perfectDays = 976893" "IMDBID perfectDays = ''tt27503384''"
    by (simp_all add: perfectDays_def)
  have "TMDBID (fst (enrichMovieRatings otherFilmFirst perfectDays oneMovie)) = 976893"
    using enrich_TMDBID[of perfectDays otherFilmFirst oneMovie] k by simp
  moreover have "IMDBID (fst (enrichMovieRatings otherFilmFirst perfectDays oneMovie)) = ''tt0000002''"
    using enrich_imdb(1)[OF r, of oneMovie] by (simp add: t c)
  ultimately show ?thesis using k by simp
qed

section \<open>Properties of the ingestion\<close>

subsection \<open>Loops\<close>

lemma foldl_covers:
  assumes step: "\<And>s x. I s \<Longrightarrow> I (f s x) \<and> R s (f s x) \<and> C (f s x) x"
    and refl: "\<And>s. R s s"
    and trans: "\<And>a b c. R a b \<Longrightarrow> R b c \<Longrightarrow> R a c"
    and mono: "\<And>a b x. R a b \<Longrightarrow> C a x \<Longrightarrow> C b x"
    and "I s"
  shows "I (foldl f s xs) \<and> R s (foldl f s xs) \<and> (\<forall>x\<in>set xs. C (foldl f s xs) x)"
  using \<open>I s\<close>
proof (induction xs arbitrary: s)
  case Nil
  then show ?case by (simp add: refl)
next
  case (Cons x xs)
  from step[OF Cons.prems, of x] have 1: "I (f s x)" "R s (f s x)" "C (f s x) x" by simp_all
  from Cons.IH[OF 1(1)] have 2: "I (foldl f (f s x) xs)" "R (f s x) (foldl f (f s x) xs)"
    "\<forall>y\<in>set xs. C (foldl f (f s x) xs) y" by simp_all
  from 1 2 show ?case by (auto intro: trans mono)
qed

lemma foldl_covered:
  assumes step: "\<And>s x. I s \<Longrightarrow> C s x \<Longrightarrow> I (f s x) \<and> E s (f s x)"
    and refl: "\<And>s. E s s"
    and trans: "\<And>a b c. E a b \<Longrightarrow> E b c \<Longrightarrow> E a c"
    and cong: "\<And>a b x. E a b \<Longrightarrow> C a x \<Longrightarrow> C b x"
    and "I s" and "\<forall>x\<in>set xs. C s x"
  shows "I (foldl f s xs) \<and> E s (foldl f s xs)"
  using \<open>I s\<close> \<open>\<forall>x\<in>set xs. C s x\<close>
proof (induction xs arbitrary: s)
  case Nil
  then show ?case by (simp add: refl)
next
  case (Cons x xs)
  from Cons.prems have c: "C s x" by simp
  from step[OF Cons.prems(1) c] have 1: "I (f s x)" "E s (f s x)" by simp_all
  from Cons.prems(2) 1(2) have "\<forall>y\<in>set xs. C (f s x) y" by (auto intro: cong)
  from Cons.IH[OF 1(1) this] 1 show ?case by (auto intro: trans)
qed

subsection \<open>The relations between states\<close>

lemma grows_refl: "grows a a"
  by (simp add: grows_def)

lemma grows_trans: "grows a b \<Longrightarrow> grows b c \<Longrightarrow> grows a c"
  by (auto simp: grows_def intro: prefix_order.trans)

lemma sameRows_refl: "sameRows a a"
  by (simp add: sameRows_def)

lemma sameRows_trans: "sameRows a b \<Longrightarrow> sameRows b c \<Longrightarrow> sameRows a c"
  by (simp add: sameRows_def)

lemma sameRows_grows: "sameRows a b \<Longrightarrow> grows a b"
  by (simp add: sameRows_def grows_def)

lemma find_map_key: "find P (map f xs) = map_option f (find (\<lambda>x. P (f x)) xs)"
  by (induction xs) simp_all

lemma find_app: "find P (xs @ ys) = (case find P xs of None \<Rightarrow> find P ys | Some x \<Rightarrow> Some x)"
  by (induction xs) simp_all

lemma keyOf_keys: "keyOf t st = map_option fst (find (\<lambda>k. snd k = t) (movieKeys st))"
  by (simp add: keyOf_def firstMovieByTitleJP_def movieKeys_def find_map_key comp_def
      option.map_comp)

lemma find_prefix: "prefix xs ys \<Longrightarrow> find P xs = Some x \<Longrightarrow> find P ys = Some x"
  by (auto simp: prefix_def find_app)

lemma keyOf_grows: "grows a b \<Longrightarrow> keyOf t a = Some k \<Longrightarrow> keyOf t b = Some k"
  unfolding keyOf_keys grows_def by (auto dest: find_prefix)

lemma hasSlot_mono: "prefix S S' \<Longrightarrow> hasSlot S mid cid pd t \<Longrightarrow> hasSlot S' mid cid pd t"
  unfolding hasSlot_def using set_mono_prefix by blast

lemma spanCovered_mono:
  "prefix S S' \<Longrightarrow> spanCovered S mid cid pd sp \<Longrightarrow> spanCovered S' mid cid pd sp"
  by (auto simp: spanCovered_def split: option.splits intro: hasSlot_mono)

lemma cellCovered_mono:
  "prefix S S' \<Longrightarrow> cellCovered S mid cid td \<Longrightarrow> cellCovered S' mid cid td"
  by (auto simp: cellCovered_def split: option.splits intro: spanCovered_mono)

lemma sectionCovered_mono:
  assumes "grows a b" and "sectionCovered cid a sec"
  shows "sectionCovered cid b sec"
proof (cases "TrimSpace (heading sec) = []")
  case True
  then show ?thesis by (simp add: sectionCovered_def)
next
  case False
  with assms(2) obtain mid where k: "keyOf (TrimSpace (heading sec)) a = Some mid"
    and c: "\<forall>td\<in>set (cells sec). cellCovered (schedules a) mid cid td"
    by (auto simp: sectionCovered_def Let_def split: option.splits)
  from keyOf_grows[OF assms(1) k] have "keyOf (TrimSpace (heading sec)) b = Some mid" .
  moreover from assms(1) have "prefix (schedules a) (schedules b)" by (simp add: grows_def)
  with c have "\<forall>td\<in>set (cells sec). cellCovered (schedules b) mid cid td"
    by (auto intro: cellCovered_mono)
  ultimately show ?thesis by (simp add: sectionCovered_def)
qed

lemma pageCovered_mono:
  assumes "grows a b" and "pageCovered a page"
  shows "pageCovered b page"
proof -
  from assms(1) have "firstCinemaByName n b = firstCinemaByName n a" for n
    by (simp add: grows_def firstCinemaByName_def)
  with assms show ?thesis
    by (auto simp: pageCovered_def split: option.splits intro: sectionCovered_mono)
qed

subsection \<open>Spans and cells\<close>

lemma find_sameSlot:
  "(find (sameSlot \<lparr>Schedule_ID = i, MovieID = mid, CinemaID = cid, PlayDate = pd,
       StartTime = t\<rparr>) S = None) = (\<not> hasSlot S mid cid pd t)"
  by (auto simp: find_None_iff hasSlot_def sameSlot_def)

lemma spanStep_frame:
  "movies (spanStep movie cinema pd st sp) = movies st"
  "cinemas (spanStep movie cinema pd st sp) = cinemas st"
  "requests (spanStep movie cinema pd st sp) = requests st"
  "prefix (schedules st) (schedules (spanStep movie cinema pd st sp))"
  by (simp_all add: spanStep_def firstOrCreateSchedule_def split: option.splits)

lemma spanStep_covers:
  "spanCovered (schedules (spanStep movie cinema pd st sp)) (ID movie) (Cinema_ID cinema) pd sp"
proof (cases "startTimeOf sp")
  case None
  then show ?thesis by (simp add: spanCovered_def)
next
  case (Some t)
  show ?thesis
  proof (cases "hasSlot (schedules st) (ID movie) (Cinema_ID cinema) pd t")
    case True
    then have "find (sameSlot \<lparr>Schedule_ID = 0, MovieID = ID movie, CinemaID = Cinema_ID cinema,
       PlayDate = pd, StartTime = t\<rparr>) (schedules st) \<noteq> None"
      by (simp add: find_sameSlot)
    with True Some show ?thesis
      by (auto simp: spanCovered_def spanStep_def firstOrCreateSchedule_def)
  next
    case False
    then have "find (sameSlot \<lparr>Schedule_ID = 0, MovieID = ID movie, CinemaID = Cinema_ID cinema,
       PlayDate = pd, StartTime = t\<rparr>) (schedules st) = None"
      by (simp add: find_sameSlot)
    with Some show ?thesis
      by (simp add: spanCovered_def spanStep_def firstOrCreateSchedule_def hasSlot_def)
  qed
qed

lemma spanStep_covered:
  assumes "spanCovered (schedules st) (ID movie) (Cinema_ID cinema) pd sp"
  shows "spanStep movie cinema pd st sp = st"
proof (cases "startTimeOf sp")
  case None
  then show ?thesis by (simp add: spanStep_def)
next
  case (Some t)
  with assms have "hasSlot (schedules st) (ID movie) (Cinema_ID cinema) pd t"
    by (simp add: spanCovered_def)
  then have "find (sameSlot \<lparr>Schedule_ID = 0, MovieID = ID movie, CinemaID = Cinema_ID cinema,
       PlayDate = pd, StartTime = t\<rparr>) (schedules st) \<noteq> None"
    by (simp add: find_sameSlot)
  with Some show ?thesis
    by (auto simp: spanStep_def firstOrCreateSchedule_def)
qed

lemma sameButSchedules_refl: "sameButSchedules a a"
  by (simp add: sameButSchedules_def)

lemma sameButSchedules_trans:
  "sameButSchedules a b \<Longrightarrow> sameButSchedules b c \<Longrightarrow> sameButSchedules a c"
  by (auto simp: sameButSchedules_def intro: prefix_order.trans)

lemma spanLoop_covers:
  "sameButSchedules st (foldl (spanStep movie cinema pd) st sps)
   \<and> (\<forall>sp\<in>set sps. spanCovered (schedules (foldl (spanStep movie cinema pd) st sps))
                       (ID movie) (Cinema_ID cinema) pd sp)"
proof -
  have "True \<and> sameButSchedules st (foldl (spanStep movie cinema pd) st sps)
   \<and> (\<forall>sp\<in>set sps. spanCovered (schedules (foldl (spanStep movie cinema pd) st sps))
                       (ID movie) (Cinema_ID cinema) pd sp)"
  proof (rule foldl_covers[where I = "\<lambda>s. True" and R = sameButSchedules
        and C = "\<lambda>s sp. spanCovered (schedules s) (ID movie) (Cinema_ID cinema) pd sp"])
    show "True \<and> sameButSchedules s (spanStep movie cinema pd s x) \<and>
           spanCovered (schedules (spanStep movie cinema pd s x)) (ID movie) (Cinema_ID cinema) pd x"
      for s x
      by (simp add: sameButSchedules_def spanStep_frame spanStep_covers)
  qed (auto simp: sameButSchedules_refl sameButSchedules_def
        intro: sameButSchedules_trans spanCovered_mono)
  then show ?thesis by simp
qed

lemma spanLoop_covered:
  "\<forall>sp\<in>set sps. spanCovered (schedules st) (ID movie) (Cinema_ID cinema) pd sp
   \<Longrightarrow> foldl (spanStep movie cinema pd) st sps = st"
  by (induction sps arbitrary: st) (simp_all add: spanStep_covered)

lemma cellStep_covers:
  "sameButSchedules (snd acc) (snd (cellStep movie cinema acc td))
   \<and> cellCovered (schedules (snd (cellStep movie cinema acc td))) (ID movie) (Cinema_ID cinema) td"
  using spanLoop_covers[of "snd acc" movie cinema _ "spans td"]
  by (auto simp: cellStep_def cellCovered_def sameButSchedules_refl split: option.splits)

lemma cellStep_covered:
  "cellCovered (schedules (snd acc)) (ID movie) (Cinema_ID cinema) td
   \<Longrightarrow> snd (cellStep movie cinema acc td) = snd acc"
  by (auto simp: cellStep_def cellCovered_def spanLoop_covered split: option.splits)

lemma cellLoop_covers:
  "sameButSchedules (snd acc) (snd (foldl (cellStep movie cinema) acc tds))
   \<and> (\<forall>td\<in>set tds. cellCovered (schedules (snd (foldl (cellStep movie cinema) acc tds)))
                       (ID movie) (Cinema_ID cinema) td)"
proof -
  have "True \<and> sameButSchedules (snd acc) (snd (foldl (cellStep movie cinema) acc tds))
   \<and> (\<forall>td\<in>set tds. cellCovered (schedules (snd (foldl (cellStep movie cinema) acc tds)))
                       (ID movie) (Cinema_ID cinema) td)"
  proof (rule foldl_covers[where I = "\<lambda>s. True" and R = "\<lambda>a b. sameButSchedules (snd a) (snd b)"
        and C = "\<lambda>s td. cellCovered (schedules (snd s)) (ID movie) (Cinema_ID cinema) td"])
    show "True \<and> sameButSchedules (snd s) (snd (cellStep movie cinema s x)) \<and>
           cellCovered (schedules (snd (cellStep movie cinema s x))) (ID movie) (Cinema_ID cinema) x"
      for s x
      using cellStep_covers[of s movie cinema x] by simp
  qed (auto simp: sameButSchedules_refl sameButSchedules_def
        intro: sameButSchedules_trans cellCovered_mono)
  then show ?thesis by simp
qed

lemma cellLoop_covered:
  "\<forall>td\<in>set tds. cellCovered (schedules (snd acc)) (ID movie) (Cinema_ID cinema) td
   \<Longrightarrow> snd (foldl (cellStep movie cinema) acc tds) = snd acc"
  by (induction tds arbitrary: acc) (simp_all add: cellStep_covered)

lemma cellLoop_no_dates:
  "\<forall>td\<in>set tds. cellDate td = None \<Longrightarrow> foldl (cellStep movie cinema) acc tds = acc"
  by (induction tds arbitrary: acc) (simp_all add: cellStep_def)

subsection \<open>The movie of a section\<close>

lemma foldl_max_ge: "a \<le> foldl max a ks \<and> (\<forall>k\<in>set ks. k \<le> foldl max (a::nat) ks)"
proof (induction ks arbitrary: a)
  case Nil
  then show ?case by simp
next
  case (Cons k ks)
  from Cons.IH[of "max a k"] show ?case by auto
qed

lemma nextKey_fresh: "nextKey ks \<notin> set ks"
  using foldl_max_ge[of 0 ks] by (auto simp: nextKey_def)

lemma findOrCreateMovie_found:
  "firstMovieByTitleJP titleJP (snd (findOrCreateMovie titleJP st))
     = Some (fst (findOrCreateMovie titleJP st))"
  by (auto simp: findOrCreateMovie_def firstMovieByTitleJP_def createMovie_def Let_def find_app
      split: option.splits)

lemma findOrCreateMovie_grows:
  assumes "validKeys st"
  shows "validKeys (snd (findOrCreateMovie titleJP st))"
    and "grows st (snd (findOrCreateMovie titleJP st))"
    and "schedules (snd (findOrCreateMovie titleJP st)) = schedules st"
  using assms nextKey_fresh[of "map ID (movies st)"]
  by (auto simp: findOrCreateMovie_def createMovie_def Let_def validKeys_def grows_def
      movieKeys_def split: option.splits)

lemma findOrCreateMovie_known:
  "keyOf titleJP st \<noteq> None \<Longrightarrow> snd (findOrCreateMovie titleJP st) = st"
  by (auto simp: findOrCreateMovie_def keyOf_def split: option.splits)

lemma find_mem: "find P xs = Some x \<Longrightarrow> x \<in> set xs \<and> P x"
  by (induction xs) (auto split: if_splits)

lemma map_replace:
  assumes "distinct (map ID xs)" and "m \<in> set xs" and "ID m' = ID m" and "g m' = g m"
  shows "map g (map (\<lambda>r. if ID r = ID m' then m' else r) xs) = map g xs"
proof -
  have "r = m" if "r \<in> set xs" "ID r = ID m" for r
    using assms(1,2) that by (meson distinct_map inj_on_def)
  with assms(3,4) show ?thesis by (auto simp: map_eq_conv)
qed

lemma enrich_movies:
  "movies (snd (enrichMovieRatings env m st)) = movies st
   \<or> movies (snd (enrichMovieRatings env m st))
        = movies (saveMovie (fst (enrichMovieRatings env m st)) st)"
proof (cases rule: enrich_cases[where env=env and m=m and st=st])
  case (saved e m')
  have "movies (snd (imdbStep env e)) = movies st"
    by (simp add: imdbStep_state saved(2) langLoop_state sent_def)
  then show ?thesis
    by (simp add: saved(4) saveMovie_def)
qed (simp_all add: sent_def)

lemma enrich_rows:
  assumes "validKeys st" and "m \<in> set (movies st)"
  shows "map ID (movies (snd (enrichMovieRatings env m st))) = map ID (movies st)"
    and "map TitleJP (movies (snd (enrichMovieRatings env m st))) = map TitleJP (movies st)"
    and "map Status (movies (snd (enrichMovieRatings env m st))) = map Status (movies st)"
proof -
  let ?m' = "fst (enrichMovieRatings env m st)"
  have i: "ID ?m' = ID m" by (rule enrich_fixed)
  from assms(2) have "ID ?m' \<in> set (map ID (movies st))" by (simp add: i)
  then have s: "movies (saveMovie ?m' st) = map (\<lambda>r. if ID r = ID ?m' then ?m' else r) (movies st)"
    by (simp add: saveMovie_def)
  from assms have d: "distinct (map ID (movies st))" by (simp add: validKeys_def)
  have "map g (movies (snd (enrichMovieRatings env m st))) = map g (movies st)"
    if "g ?m' = g m" for g :: "Movie \<Rightarrow> 'a"
    using enrich_movies[of env m st] map_replace[OF d assms(2) i that] by (auto simp: s)
  from this[of ID] this[of TitleJP] this[of Status]
  show "map ID (movies (snd (enrichMovieRatings env m st))) = map ID (movies st)"
    and "map TitleJP (movies (snd (enrichMovieRatings env m st))) = map TitleJP (movies st)"
    and "map Status (movies (snd (enrichMovieRatings env m st))) = map Status (movies st)"
    by (simp_all add: enrich_fixed enrich_TitleJP)
qed

lemma movieKeys_eq:
  "(movieKeys a = movieKeys b)
     = (map ID (movies a) = map ID (movies b) \<and> map TitleJP (movies a) = map TitleJP (movies b))"
proof -
  have "(map (\<lambda>r. (ID r, TitleJP r)) xs = map (\<lambda>r. (ID r, TitleJP r)) ys)
     = (map ID xs = map ID ys \<and> map TitleJP xs = map TitleJP ys)" for xs ys :: "Movie list"
  proof (induction xs arbitrary: ys)
    case Nil
    then show ?case by auto
  next
    case (Cons x xs)
    then show ?case by (cases ys) auto
  qed
  then show ?thesis by (simp add: movieKeys_def)
qed

lemma enrich_sameRows:
  assumes "validKeys st" and "m \<in> set (movies st)"
  shows "sameRows st (snd (enrichMovieRatings env m st))"
    and "validKeys (snd (enrichMovieRatings env m st))"
  using enrich_rows[OF assms, of env] assms(1)
  by (simp_all add: sameRows_def movieKeys_eq enrich_tables validKeys_def)

text \<open>The head of a section: the movie is in the table under the title.\<close>

lemma keyOf_sameRows: "sameRows a b \<Longrightarrow> keyOf t b = keyOf t a"
  by (simp add: keyOf_keys sameRows_def)

lemma sectionHead_grows:
  assumes "validKeys st"
  shows "validKeys (snd (sectionHead env titleJP st))"
    and "grows st (snd (sectionHead env titleJP st))"
    and "schedules (snd (sectionHead env titleJP st)) = schedules st"
    and "keyOf titleJP (snd (sectionHead env titleJP st)) = Some (ID (fst (sectionHead env titleJP st)))"
    and "keyOf titleJP st \<noteq> None \<Longrightarrow> sameRows st (snd (sectionHead env titleJP st))"
proof -
  let ?ms = "findOrCreateMovie titleJP st"
  have f: "firstMovieByTitleJP titleJP (snd ?ms) = Some (fst ?ms)"
    by (rule findOrCreateMovie_found)
  then have mem: "fst ?ms \<in> set (movies (snd ?ms))"
    by (auto simp: firstMovieByTitleJP_def dest: find_mem)
  have v: "validKeys (snd ?ms)" by (rule findOrCreateMovie_grows[OF assms])
  have sh: "sectionHead env titleJP st = enrichMovieRatings env (fst ?ms) (snd ?ms)"
    by (simp add: sectionHead_def Let_def)
  have sr: "sameRows (snd ?ms) (snd (sectionHead env titleJP st))"
    unfolding sh by (rule enrich_sameRows[OF v mem])
  show "validKeys (snd (sectionHead env titleJP st))"
    unfolding sh by (rule enrich_sameRows[OF v mem])
  show "grows st (snd (sectionHead env titleJP st))"
    using findOrCreateMovie_grows(2)[OF assms, of titleJP] sr
    by (auto intro: grows_trans sameRows_grows)
  show "schedules (snd (sectionHead env titleJP st)) = schedules st"
    using sr findOrCreateMovie_grows(3)[OF assms, of titleJP] by (simp add: sameRows_def)
  have "keyOf titleJP (snd (sectionHead env titleJP st)) = keyOf titleJP (snd ?ms)"
    by (rule keyOf_sameRows[OF sr])
  also have "\<dots> = Some (ID (fst ?ms))" by (simp add: keyOf_def f)
  also have "ID (fst ?ms) = ID (fst (sectionHead env titleJP st))"
    unfolding sh by (simp add: enrich_fixed)
  finally show "keyOf titleJP (snd (sectionHead env titleJP st))
      = Some (ID (fst (sectionHead env titleJP st)))" .
  show "sameRows st (snd (sectionHead env titleJP st))" if "keyOf titleJP st \<noteq> None"
    using sr findOrCreateMovie_known[OF that] by simp
qed

subsection \<open>The status of a section\<close>

lemma updateStatus_sameRows: "sameRows st (updateStatus k s st)"
  by (simp add: updateStatus_def sameRows_def movieKeys_def comp_def if_distrib cong: if_cong)

lemma updateStatus_validKeys: "validKeys (updateStatus k s st) = validKeys st"
proof -
  have "map ID (movies (updateStatus k s st)) = map ID (movies st)"
    by (simp add: updateStatus_def comp_def if_distrib cong: if_cong)
  then show ?thesis by (simp add: validKeys_def)
qed

lemma statusStep_sameRows:
  "sameRows st (statusStep env movie ds st)"
  "validKeys (statusStep env movie ds st) = validKeys st"
  by (simp_all add: statusStep_def Let_def updateStatus_sameRows updateStatus_validKeys
      sameRows_refl)

lemma sameButSchedules_grows: "sameButSchedules a b \<Longrightarrow> grows a b"
  by (simp add: sameButSchedules_def grows_def movieKeys_def)

lemma sameButSchedules_validKeys: "sameButSchedules a b \<Longrightarrow> validKeys b = validKeys a"
  by (simp add: sameButSchedules_def validKeys_def)

lemma sectionStep_covers:
  assumes "validKeys st"
  shows "validKeys (sectionStep env cinema st sec) \<and> grows st (sectionStep env cinema st sec)
         \<and> sectionCovered (Cinema_ID cinema) (sectionStep env cinema st sec) sec"
proof (cases "TrimSpace (heading sec) = []")
  case True
  with assms show ?thesis
    by (simp add: sectionStep_def sectionCovered_def grows_refl)
next
  case False
  define titleJP where "titleJP = TrimSpace (heading sec)"
  define ms where "ms = sectionHead env titleJP st"
  define acc where "acc = foldl (cellStep (fst ms) cinema) ([], snd ms) (cells sec)"
  have res: "sectionStep env cinema st sec = statusStep env (fst ms) (fst acc) (snd acc)"
    using False by (simp add: sectionStep_def Let_def titleJP_def ms_def acc_def)
  note h = sectionHead_grows[OF assms, where env=env and titleJP=titleJP, folded ms_def]
  from cellLoop_covers[of "([], snd ms)" "fst ms" cinema "cells sec", folded acc_def]
  have b: "sameButSchedules (snd ms) (snd acc)"
    and c: "\<forall>td\<in>set (cells sec). cellCovered (schedules (snd acc)) (ID (fst ms)) (Cinema_ID cinema) td"
    by simp_all
  have sr: "sameRows (snd acc) (sectionStep env cinema st sec)"
    unfolding res by (rule statusStep_sameRows)
  have v: "validKeys (sectionStep env cinema st sec)"
    unfolding res using h(1) sameButSchedules_validKeys[OF b] by (simp add: statusStep_sameRows)
  have g: "grows st (sectionStep env cinema st sec)"
    using h(2) sameButSchedules_grows[OF b] sameRows_grows[OF sr] by (blast intro: grows_trans)
  have k: "keyOf titleJP (snd acc) = Some (ID (fst ms))"
    using keyOf_grows[OF sameButSchedules_grows[OF b] h(4)] .
  then have "sectionCovered (Cinema_ID cinema) (snd acc) sec"
    using c by (simp add: sectionCovered_def titleJP_def)
  with sr have "sectionCovered (Cinema_ID cinema) (sectionStep env cinema st sec) sec"
    by (blast intro: sectionCovered_mono sameRows_grows)
  with v g show ?thesis by simp
qed

lemma sectionStep_covered:
  assumes "validKeys st" and "sectionCovered (Cinema_ID cinema) st sec"
  shows "validKeys (sectionStep env cinema st sec) \<and> sameRows st (sectionStep env cinema st sec)"
proof (cases "TrimSpace (heading sec) = []")
  case True
  with assms show ?thesis
    by (simp add: sectionStep_def sameRows_refl)
next
  case False
  define titleJP where "titleJP = TrimSpace (heading sec)"
  define ms where "ms = sectionHead env titleJP st"
  define acc where "acc = foldl (cellStep (fst ms) cinema) ([], snd ms) (cells sec)"
  have res: "sectionStep env cinema st sec = statusStep env (fst ms) (fst acc) (snd acc)"
    using False by (simp add: sectionStep_def Let_def titleJP_def ms_def acc_def)
  from assms(2) False obtain mid where k: "keyOf titleJP st = Some mid"
    and c: "\<forall>td\<in>set (cells sec). cellCovered (schedules st) mid (Cinema_ID cinema) td"
    by (auto simp: sectionCovered_def Let_def titleJP_def split: option.splits)
  note h = sectionHead_grows[OF assms(1), where env=env and titleJP=titleJP, folded ms_def]
  from k have sr1: "sameRows st (snd ms)" by (simp add: h(5))
  from keyOf_grows[OF h(2) k] h(4) have mid: "mid = ID (fst ms)" by simp
  from c have "\<forall>td\<in>set (cells sec). cellCovered (schedules (snd ([], snd ms))) (ID (fst ms)) (Cinema_ID cinema) td"
    by (simp add: mid h(3))
  from cellLoop_covered[OF this] have a: "snd acc = snd ms" by (simp add: acc_def)
  have sr2: "sameRows (snd ms) (sectionStep env cinema st sec)"
    unfolding res a by (rule statusStep_sameRows)
  have "validKeys (sectionStep env cinema st sec)"
    unfolding res a using h(1) by (simp add: statusStep_sameRows)
  with sr1 sr2 show ?thesis by (blast intro: sameRows_trans)
qed

subsection \<open>Pages and runs\<close>

lemma sectionLoop_covers:
  assumes "validKeys st"
  shows "validKeys (foldl (sectionStep env cinema) st secs)
         \<and> grows st (foldl (sectionStep env cinema) st secs)
         \<and> (\<forall>sec\<in>set secs. sectionCovered (Cinema_ID cinema) (foldl (sectionStep env cinema) st secs) sec)"
  by (rule foldl_covers[where I = validKeys and R = grows
        and C = "sectionCovered (Cinema_ID cinema)"])
     (auto simp: sectionStep_covers grows_refl assms intro: grows_trans sectionCovered_mono)

lemma sectionLoop_covered:
  assumes "validKeys st" and "\<forall>sec\<in>set secs. sectionCovered (Cinema_ID cinema) st sec"
  shows "validKeys (foldl (sectionStep env cinema) st secs)
         \<and> sameRows st (foldl (sectionStep env cinema) st secs)"
  by (rule foldl_covered[where I = validKeys and E = sameRows
        and C = "sectionCovered (Cinema_ID cinema)"])
     (auto simp: sectionStep_covered sameRows_refl assms
        intro: sameRows_trans sectionCovered_mono sameRows_grows)

lemma pageStep_covers:
  assumes "validKeys st"
  shows "validKeys (pageStep env st page) \<and> grows st (pageStep env st page)
         \<and> pageCovered (pageStep env st page) page"
proof (cases "pageTitle page = []")
  case True
  with assms show ?thesis by (simp add: pageStep_def pageCovered_def grows_refl)
next
  case False
  show ?thesis
  proof (cases "firstCinemaByName (normalizeName (pageTitle page)) st")
    case None
    with False assms show ?thesis by (simp add: pageStep_def pageCovered_def grows_refl Let_def)
  next
    case (Some cinema)
    with False have res: "pageStep env st page = foldl (sectionStep env cinema) st (movieSections page)"
      by (simp add: pageStep_def Let_def)
    note l = sectionLoop_covers[OF assms, of env cinema "movieSections page", folded res]
    from l have "cinemas (pageStep env st page) = cinemas st" by (simp add: grows_def)
    then have "firstCinemaByName (normalizeName (pageTitle page)) (pageStep env st page) = Some cinema"
      using Some by (simp add: firstCinemaByName_def)
    with l show ?thesis by (simp add: pageCovered_def)
  qed
qed

lemma pageStep_covered:
  assumes "validKeys st" and "pageCovered st page"
  shows "validKeys (pageStep env st page) \<and> sameRows st (pageStep env st page)"
proof (cases "pageTitle page = []")
  case True
  with assms show ?thesis by (simp add: pageStep_def sameRows_refl)
next
  case False
  show ?thesis
  proof (cases "firstCinemaByName (normalizeName (pageTitle page)) st")
    case None
    with False assms show ?thesis by (simp add: pageStep_def sameRows_refl Let_def)
  next
    case (Some cinema)
    with False have res: "pageStep env st page = foldl (sectionStep env cinema) st (movieSections page)"
      by (simp add: pageStep_def Let_def)
    from assms(2) False Some
    have "\<forall>sec\<in>set (movieSections page). sectionCovered (Cinema_ID cinema) st sec"
      by (simp add: pageCovered_def)
    from sectionLoop_covered[OF assms(1) this, of env] show ?thesis by (simp add: res)
  qed
qed

lemma sync_covers:
  assumes "validKeys st"
  shows "validKeys (syncSchedulesFromEiga env pages st)
         \<and> grows st (syncSchedulesFromEiga env pages st)
         \<and> (\<forall>page\<in>set pages. pageCovered (syncSchedulesFromEiga env pages st) page)"
  unfolding syncSchedulesFromEiga_def
  by (rule foldl_covers[where I = validKeys and R = grows and C = pageCovered])
     (auto simp: pageStep_covers grows_refl assms intro: grows_trans pageCovered_mono)

lemma sync_covered:
  assumes "validKeys st" and "\<forall>page\<in>set pages. pageCovered st page"
  shows "validKeys (syncSchedulesFromEiga env pages st)
         \<and> sameRows st (syncSchedulesFromEiga env pages st)"
  unfolding syncSchedulesFromEiga_def
  by (rule foldl_covered[where I = validKeys and E = sameRows and C = pageCovered])
     (auto simp: pageStep_covered sameRows_refl assms
        intro: sameRows_trans pageCovered_mono sameRows_grows)


subsection \<open>A run, evaluated\<close>

lemma startTimeOf_samples:
  "startTimeOf eighteenOhFive = Some ''18:05''"
  "startTimeOf ''11:00'' = Some ''11:00''"
proof -
  have t1: "TrimSpace eighteenOhFive = eighteenOhFive"
    by (simp add: eighteenOhFive_def str_eval)
  have t2: "TrimSpace ''11:00'' = ''11:00''"
    by (simp_all add: str_eval)
  have b1: "beforeSep eighteenOhFive = ''18:05''"
    by (simp add: eighteenOhFive_def HasPrefix_def tilde_def)
  have b2: "beforeSep ''11:00'' = ''11:00''"
    by (simp_all add: HasPrefix_def tilde_def)
  show "startTimeOf eighteenOhFive = Some ''18:05''"
    unfolding startTimeOf_eq by (simp add: t1 b1 HasPrefix_def tilde_def)
  show "startTimeOf ''11:00'' = Some ''11:00''"
    unfolding startTimeOf_eq by (simp add: t2 b2 HasPrefix_def tilde_def)
qed

lemma normalizeName_weekPage: "normalizeName (pageTitle weekPage) = shinjukuPiccadilly"
proof -
  have h: "\<not> Contains shinjukuPiccadilly openParen" "\<not> Contains shinjukuKu closeParen"
    "CHR 0x0A \<notin> set shinjukuKu"
    by (simp_all add: shinjukuPiccadilly_def shinjukuKu_def openParen_def closeParen_def
        HasPrefix_def)
  have "normalizeName [] = []" by (simp add: normalizeName_def removeParens_Nil)
  with normalizeName_group[OF h, of "[]"] show ?thesis by (simp add: weekPage_def)
qed

lemma TrimSpace_date: "TrimSpace ''20260117'' = ''20260117''" "TrimSpace ''2026'' = ''2026''"
  by (simp_all add: str_eval)

lemma cellDate_samples:
  "cellDate \<lparr>dataDate = ''20260117'', spans = sps\<rparr> = Some (midnightUTC 20470)"
  "cellDate \<lparr>dataDate = ''2026'', spans = sps\<rparr> = None"
  by (simp_all add: cellDate_def TrimSpace_date ParseCompact_def dateOfFields_def isDigit_def
      atoi_def byte_def daysIn_def isLeap_def Let_def Date_2026_01_17)

lemma noon_status: "incrementalStatus (now searchEmpty) [20470] = ''incoming''"
  by (simp add: searchEmpty_def incrementalStatus_def incStep_def Let_def Format_def wallClock_def
      midnightUTC_def AddDate_def Before_def Equal_def day_ns_def second_def)

lemma enrich_searchEmpty:
  "enrichMovieRatings searchEmpty (zeroMovie\<lparr>TitleJP := ''PERFECT DAYS'', Status := s, ID := k\<rparr>) st
     = (zeroMovie\<lparr>TitleJP := ''PERFECT DAYS'', Status := s, ID := k\<rparr>,
        sent (TmdbSearch ''PERFECT DAYS'') st)"
  by (simp add: enrichMovieRatings_def isComplete_def zeroMovie_def TrimSpace_PD Let_def
      searchTmdbID_def searchEmpty_def)

lemma first_run: "syncSchedulesFromEiga searchEmpty [weekPage] oneCinema = afterFirstRun"
proof -
  have n: "normalizeName (shinjukuPiccadilly @ openParen @ shinjukuKu @ closeParen) = shinjukuPiccadilly"
    using normalizeName_weekPage by (simp add: weekPage_def)
  have ne: "openParen \<noteq> []"
    by (simp add: openParen_def)
  show ?thesis
    by (simp add: syncSchedulesFromEiga_def pageStep_def weekPage_def n ne Let_def
        firstCinemaByName_def oneCinema_def emptyState_def piccadilly_def
        sectionStep_def TrimSpace_PD sectionHead_def findOrCreateMovie_def
        firstMovieByTitleJP_def createMovie_def nextKey_def enrich_searchEmpty sent_def
        cellStep_def cellDate_samples spanStep_def startTimeOf_samples
        firstOrCreateSchedule_def sameSlot_def Format_midnightUTC
        statusStep_def noon_status updateStatus_def afterFirstRun_def)
qed

lemma findOrCreateMovie_Status:
  "map Status (movies (snd (findOrCreateMovie titleJP st)))
     = map Status (movies st)
       @ (if firstMovieByTitleJP titleJP st = None then [''showing''] else [])"
  by (auto simp: findOrCreateMovie_def createMovie_def Let_def split: option.splits)

lemma sectionHead_Status:
  assumes "validKeys st"
  shows "map Status (movies (snd (sectionHead env titleJP st)))
           = map Status (movies st)
             @ (if firstMovieByTitleJP titleJP st = None then [''showing''] else [])"
proof -
  let ?ms = "findOrCreateMovie titleJP st"
  have "firstMovieByTitleJP titleJP (snd ?ms) = Some (fst ?ms)"
    by (rule findOrCreateMovie_found)
  then have mem: "fst ?ms \<in> set (movies (snd ?ms))"
    by (auto simp: firstMovieByTitleJP_def dest: find_mem)
  have v: "validKeys (snd ?ms)" by (rule findOrCreateMovie_grows[OF assms])
  have "map Status (movies (snd (sectionHead env titleJP st))) = map Status (movies (snd ?ms))"
    using enrich_rows(3)[OF v mem, of env] by (simp add: sectionHead_def Let_def)
  then show ?thesis by (simp only: findOrCreateMovie_Status)
qed


subsection \<open>The claims about the ingestion\<close>

text \<open>
  C8. A second run over the same pages adds nothing. From any database whose movie
  keys are distinct, let a first run of \<^verbatim>\<open>syncSchedulesFromEiga\<close> over the pages give \<open>st1\<close>
  and a second run over the same pages give \<open>st2\<close>, whatever the services answer and
  whatever the clock shows in either run. Then \<open>st2\<close> has as many movie rows as \<open>st1\<close>,
  with the same keys and the same Japanese titles in the same order, and the very same
  schedule rows; and the schedule rows from before the first run are still there,
  unchanged and in front, after it. The database is one that answers every query.
\<close>

theorem C8_second_run_adds_nothing:
  assumes "distinct (map ID (movies st))"
  shows "let st1 = syncSchedulesFromEiga env1 pages st;
             st2 = syncSchedulesFromEiga env2 pages st1
         in length (movies st2) = length (movies st1)
            \<and> map ID (movies st2) = map ID (movies st1)
            \<and> map TitleJP (movies st2) = map TitleJP (movies st1)
            \<and> schedules st2 = schedules st1
            \<and> prefix (schedules st) (schedules st1)"
proof -
  define st1 where "st1 = syncSchedulesFromEiga env1 pages st"
  define st2 where "st2 = syncSchedulesFromEiga env2 pages st1"
  from assms have v: "validKeys st" by (simp add: validKeys_def)
  from sync_covers[OF v, of env1 pages, folded st1_def]
  have v1: "validKeys st1" and g: "grows st st1" and c: "\<forall>page\<in>set pages. pageCovered st1 page"
    by simp_all
  from sync_covered[OF v1 c, of env2, folded st2_def] have s: "sameRows st1 st2" by simp
  then have k: "map ID (movies st2) = map ID (movies st1)"
    "map TitleJP (movies st2) = map TitleJP (movies st1)"
    by (simp_all add: sameRows_def movieKeys_eq)
  from k(1) have "length (movies st2) = length (movies st1)" by (rule map_eq_imp_length_eq)
  with k s g show ?thesis
    by (simp add: st1_def[symmetric] st2_def[symmetric] sameRows_def grows_def)
qed

text \<open>
  The witness: the first run over the page of Shinjuku Piccadilly creates the movie and
  two schedule rows; a second run, in which TMDB now answers, leaves one movie and the
  same two schedule rows.
\<close>

theorem C8_witness:
  "distinct (map ID (movies oneCinema))
   \<and> syncSchedulesFromEiga searchEmpty [weekPage] oneCinema = afterFirstRun
   \<and> (let st2 = syncSchedulesFromEiga omdbDown [weekPage] afterFirstRun
      in length (movies st2) = 1 \<and> map ID (movies st2) = [1]
         \<and> map TitleJP (movies st2) = [''PERFECT DAYS'']
         \<and> schedules st2 = schedules afterFirstRun)"
proof -
  have d: "distinct (map ID (movies oneCinema))"
    by (simp add: oneCinema_def emptyState_def)
  from C8_second_run_adds_nothing[OF d, of searchEmpty "[weekPage]" omdbDown]
  have "let st2 = syncSchedulesFromEiga omdbDown [weekPage] afterFirstRun
        in length (movies st2) = length (movies afterFirstRun)
         \<and> map ID (movies st2) = map ID (movies afterFirstRun)
         \<and> map TitleJP (movies st2) = map TitleJP (movies afterFirstRun)
         \<and> schedules st2 = schedules afterFirstRun"
    by (simp add: first_run Let_def)
  then show ?thesis
    using d first_run by (simp add: Let_def afterFirstRun_def)
qed

text \<open>
  C10. A section without a play date leaves the status alone. If no cell of a section
  has a \<^verbatim>\<open>data-date\<close> that parses, the map of the play dates stays empty and step 3 is
  skipped: the section does what its head does (the movie found or created, then
  \<^verbatim>\<open>enrichMovieRatings\<close>) and nothing more. Every stored status is as it was; a movie
  that the section creates has the status \<open>showing\<close> of its creation; and no schedule
  row is written.
\<close>

theorem C10_no_dates_no_status_change:
  assumes "distinct (map ID (movies st))" and "\<forall>td\<in>set (cells sec). cellDate td = None"
  shows "sectionStep env cinema st sec
           = (if TrimSpace (heading sec) = [] then st
              else snd (sectionHead env (TrimSpace (heading sec)) st))
         \<and> map Status (movies (sectionStep env cinema st sec))
           = map Status (movies st)
             @ (if TrimSpace (heading sec) \<noteq> []
                   \<and> firstMovieByTitleJP (TrimSpace (heading sec)) st = None
                then [''showing''] else [])
         \<and> schedules (sectionStep env cinema st sec) = schedules st"
proof (cases "TrimSpace (heading sec) = []")
  case True
  then show ?thesis by (simp add: sectionStep_def)
next
  case False
  from assms(1) have v: "validKeys st" by (simp add: validKeys_def)
  have "foldl (cellStep movie cinema) acc (cells sec) = acc" for movie acc
    using assms(2) by (rule cellLoop_no_dates)
  then have res: "sectionStep env cinema st sec = snd (sectionHead env (TrimSpace (heading sec)) st)"
    using False by (simp add: sectionStep_def Let_def statusStep_def)
  show ?thesis
    using False sectionHead_Status[OF v, of env "TrimSpace (heading sec)"]
      sectionHead_grows(3)[OF v, of env "TrimSpace (heading sec)"]
    by (simp add: res)
qed

text \<open>
  The witness: a stored movie with the status \<open>incoming\<close> and a section of its title
  whose only cell is dated \<open>2026\<close>.
\<close>

theorem C10_witness:
  "distinct (map ID (movies oneShow)) \<and> map cellDate (cells noDates) = [None]
   \<and> TrimSpace (heading noDates) = ''PERFECT DAYS''
   \<and> map Status (movies oneShow) = [''incoming'']
   \<and> map Status (movies (sectionStep omdbDown piccadilly oneShow noDates)) = [''incoming'']
   \<and> schedules (sectionStep omdbDown piccadilly oneShow noDates) = schedules oneShow"
proof -
  have d: "distinct (map ID (movies oneShow))"
    by (simp add: oneShow_def emptyState_def)
  have c: "map cellDate (cells noDates) = [None]"
    by (simp add: noDates_def cellDate_samples)
  then have n: "\<forall>td\<in>set (cells noDates). cellDate td = None"
    by (simp add: noDates_def)
  have t: "TrimSpace (heading noDates) = ''PERFECT DAYS''"
    by (simp add: noDates_def TrimSpace_PD)
  have f: "firstMovieByTitleJP ''PERFECT DAYS'' oneShow \<noteq> None"
    by (simp add: firstMovieByTitleJP_def oneShow_def emptyState_def perfectDays_def zeroMovie_def)
  have s: "map Status (movies oneShow) = [''incoming'']"
    by (simp add: oneShow_def emptyState_def)
  note th = C10_no_dates_no_status_change[OF d n, of omdbDown piccadilly]
  from th[THEN conjunct2, THEN conjunct1] t f s
  have a: "map Status (movies (sectionStep omdbDown piccadilly oneShow noDates)) = [''incoming'']"
    by simp
  from th[THEN conjunct2, THEN conjunct2]
  have b: "schedules (sectionStep omdbDown piccadilly oneShow noDates) = schedules oneShow" .
  from d c t s a b show ?thesis by simp
qed

end
